theory Spec2Isabelle
  imports Main
begin

section \<open>The object segmenter of the stamp cropper\<close>

text \<open>
  This theory embeds \<open>segmentImage\<close> of the hook \<open>useObjectSegmenter\<close>: the binary
  map built from the alpha channel, the two dilation passes, the flood fill that labels
  connected components, the noise filter, the refit of the bounding box with padding
  and parity adjustment, and the extraction of one record per box.

  Pixel buffers are flat lists indexed by \<open>y * width + x\<close>, as the typed arrays of the
  source are. Image coordinates that the source only ever holds as array positions are
  naturals; wherever the source subtracts (\<open>x - kernelSize\<close>, \<open>cx - 1\<close>,
  \<open>rMinX - PADDING\<close>) the arithmetic is done on integers, so that a negative
  intermediate value is what it is in the source. The React state \<open>isSegmenting\<close>,
  set before the pipeline runs and reset after it, is left out.
\<close>

subsection \<open>Constants and typed-array reads\<close>

definition ALPHA_THRESHOLD :: nat where
  "ALPHA_THRESHOLD = 20"

definition kernelSize :: nat where
  "kernelSize = 15"

definition PADDING :: nat where
  "PADDING = 10"

text \<open>
  A read beyond the end of a typed array gives \<open>undefined\<close>, which is falsy and
  fails every comparison. The three helpers below are the three kinds of read the source
  performs: a truthiness test, a strict equality with a number, and the comparison of
  the alpha byte of pixel \<open>i\<close> with the threshold.
\<close>

definition truthy :: "nat list \<Rightarrow> nat \<Rightarrow> bool" where
  "truthy m i = (i < length m \<and> m ! i \<noteq> 0)"

definition eqAt :: "nat list \<Rightarrow> nat \<Rightarrow> nat \<Rightarrow> bool" where
  "eqAt m i v = (i < length m \<and> m ! i = v)"

definition alphaAbove :: "nat list \<Rightarrow> nat \<Rightarrow> bool" where
  "alphaAbove data i = (i * 4 + 3 < length data \<and> data ! (i * 4 + 3) > ALPHA_THRESHOLD)"

subsection \<open>Binary map and dilation\<close>

definition buildBinaryMap :: "nat \<Rightarrow> nat \<Rightarrow> nat list \<Rightarrow> nat list" where
  "buildBinaryMap width height data =
     fold (\<lambda>i binaryMap. if alphaAbove data i then binaryMap[i := 1] else binaryMap)
       [0..<width * height] (replicate (width * height) 0)"

text \<open>
  The innermost loop of both passes, \<open>for (k = start; k <= end; k++) m[f k] = 1\<close>,
  with integer bounds; \<open>start\<close> is never negative.
\<close>

definition fillSpan :: "(nat \<Rightarrow> nat) \<Rightarrow> int \<Rightarrow> int \<Rightarrow> nat list \<Rightarrow> nat list" where
  "fillSpan f start fin m = fold (\<lambda>k m'. m'[f k := 1]) [nat start..<nat (fin + 1)] m"

definition horizontalDilation :: "nat \<Rightarrow> nat \<Rightarrow> nat list \<Rightarrow> nat list" where
  "horizontalDilation width height binaryMap =
     fold (\<lambda>y. fold (\<lambda>x tempMap.
         if truthy binaryMap (y * width + x)
         then fillSpan (\<lambda>k. y * width + k)
                (max 0 (int x - int kernelSize))
                (min (int width - 1) (int x + int kernelSize)) tempMap
         else tempMap) [0..<width])
       [0..<height] (replicate (width * height) 0)"

definition verticalDilation :: "nat \<Rightarrow> nat \<Rightarrow> nat list \<Rightarrow> nat list" where
  "verticalDilation width height tempMap =
     fold (\<lambda>y. fold (\<lambda>x dilatedMap.
         if truthy tempMap (y * width + x)
         then fillSpan (\<lambda>k. k * width + x)
                (max 0 (int y - int kernelSize))
                (min (int height - 1) (int y + int kernelSize)) dilatedMap
         else dilatedMap) [0..<width])
       [0..<height] (replicate (width * height) 0)"

definition dilate :: "nat \<Rightarrow> nat \<Rightarrow> nat list \<Rightarrow> nat list" where
  "dilate width height binaryMap =
     verticalDilation width height (horizontalDilation width height binaryMap)"

text \<open>
  The dilation the specification describes, written from its words: a pixel is set iff
  some foreground pixel of the raw mask lies within Chebyshev distance \<open>R\<close> of it.
\<close>

definition chebyshevNear :: "nat \<Rightarrow> nat \<Rightarrow> nat \<Rightarrow> bool" where
  "chebyshevNear R a b = (a \<le> b + R \<and> b \<le> a + R)"

definition boxDilation :: "nat \<Rightarrow> nat \<Rightarrow> nat \<Rightarrow> nat list \<Rightarrow> nat list" where
  "boxDilation R width height rawMask =
     map (\<lambda>i. if (\<exists>y' \<in> set [0..<height]. \<exists>x' \<in> set [0..<width].
                    truthy rawMask (y' * width + x') \<and>
                    chebyshevNear R (i mod width) x' \<and> chebyshevNear R (i div width) y')
              then 1 else 0)
       [0..<width * height]"

subsection \<open>Connected component labeling\<close>

text \<open>
  The state of one flood fill: the work queue with its read position, the visited
  array, the running bounding box and the pixels dequeued so far. The fields carry the
  names of the source's local variables behind the prefix \<open>bfs_\<close>.
\<close>

record bfs_state =
  bfs_queue :: "nat list"
  bfs_head :: nat
  bfs_visited :: "nat list"
  bfs_minX :: nat
  bfs_maxX :: nat
  bfs_minY :: nat
  bfs_maxY :: nat
  bfs_componentPixels :: "nat list"

definition neighbors :: "nat \<Rightarrow> nat \<Rightarrow> (int \<times> int) list" where
  "neighbors cx cy =
     [(int cx + 1, int cy), (int cx - 1, int cy), (int cx, int cy + 1), (int cx, int cy - 1)]"

definition visitNeighbor ::
  "nat \<Rightarrow> nat \<Rightarrow> nat list \<Rightarrow> int \<times> int \<Rightarrow> nat list \<times> nat list \<Rightarrow> nat list \<times> nat list" where
  "visitNeighbor width height dilatedMap n vq =
     (case n of (nx, ny) \<Rightarrow> case vq of (visited, queue) \<Rightarrow>
        if 0 \<le> nx \<and> nx < int width \<and> 0 \<le> ny \<and> ny < int height
        then (let nIdx = nat (ny * int width + nx)
              in if \<not> truthy visited nIdx \<and> eqAt dilatedMap nIdx 1
                 then (visited[nIdx := 1], queue @ [nIdx])
                 else (visited, queue))
        else (visited, queue))"

text \<open>One iteration of \<open>while (head < queue.length)\<close>.\<close>

definition bfsStep :: "nat \<Rightarrow> nat \<Rightarrow> nat list \<Rightarrow> bfs_state \<Rightarrow> bfs_state" where
  "bfsStep width height dilatedMap s =
     (let currIdx = bfs_queue s ! bfs_head s;
          cx = currIdx mod width;
          cy = currIdx div width;
          vq = fold (visitNeighbor width height dilatedMap) (neighbors cx cy)
                 (bfs_visited s, bfs_queue s)
      in \<lparr>bfs_queue = snd vq,
          bfs_head = bfs_head s + 1,
          bfs_visited = fst vq,
          bfs_minX = (if cx < bfs_minX s then cx else bfs_minX s),
          bfs_maxX = (if cx > bfs_maxX s then cx else bfs_maxX s),
          bfs_minY = (if cy < bfs_minY s then cy else bfs_minY s),
          bfs_maxY = (if cy > bfs_maxY s then cy else bfs_maxY s),
          bfs_componentPixels = bfs_componentPixels s @ [currIdx]\<rparr>)"

text \<open>
  The loop itself. Nothing in its text bounds the number of iterations, so it is a
  partial function: \<open>None\<close> stands for a loop that never leaves.
\<close>

partial_function (option) bfsLoop ::
  "nat \<Rightarrow> nat \<Rightarrow> nat list \<Rightarrow> bfs_state \<Rightarrow> bfs_state option" where
  "bfsLoop width height dilatedMap s =
     (if bfs_head s < length (bfs_queue s)
      then bfsLoop width height dilatedMap (bfsStep width height dilatedMap s)
      else Some s)"

declare bfsLoop.simps [code]

definition bfsStart :: "nat \<Rightarrow> nat \<Rightarrow> nat \<Rightarrow> nat list \<Rightarrow> bfs_state" where
  "bfsStart width x y visited =
     \<lparr>bfs_queue = [y * width + x], bfs_head = 0,
      bfs_visited = visited[y * width + x := 1],
      bfs_minX = x, bfs_maxX = x, bfs_minY = y, bfs_maxY = y,
      bfs_componentPixels = []\<rparr>"

text \<open>
  The raster scan. What the source does with a finished flood fill (noise filter, refit,
  push to \<open>objects\<close>) is the parameter \<open>emit\<close>; the scan appends what it returns.
\<close>

definition scanPixel ::
  "(bfs_state \<Rightarrow> 'a list) \<Rightarrow> nat \<Rightarrow> nat \<Rightarrow> nat list \<Rightarrow> nat \<Rightarrow> nat \<Rightarrow>
   (nat list \<times> 'a list) option \<Rightarrow> (nat list \<times> 'a list) option" where
  "scanPixel emit width height dilatedMap y x st =
     (case st of
        None \<Rightarrow> None
      | Some (visited, objects) \<Rightarrow>
          if truthy visited (y * width + x) \<or> eqAt dilatedMap (y * width + x) 0
          then Some (visited, objects)
          else (case bfsLoop width height dilatedMap (bfsStart width x y visited) of
                  None \<Rightarrow> None
                | Some s \<Rightarrow> Some (bfs_visited s, objects @ emit s)))"

definition scanImage ::
  "(bfs_state \<Rightarrow> 'a list) \<Rightarrow> nat \<Rightarrow> nat \<Rightarrow> nat list \<Rightarrow> 'a list option" where
  "scanImage emit width height dilatedMap =
     map_option snd
       (fold (\<lambda>y. fold (scanPixel emit width height dilatedMap y) [0..<width])
          [0..<height] (Some (replicate (width * height) 0, [])))"

text \<open>The components themselves, in the order in which the scan finishes them.\<close>

definition labelComponents :: "nat \<Rightarrow> nat \<Rightarrow> nat list \<Rightarrow> bfs_state list option" where
  "labelComponents width height dilatedMap = scanImage (\<lambda>s. [s]) width height dilatedMap"

subsection \<open>Noise filter, refit, padding and parity\<close>

text \<open>An element of \<open>objects\<close>.\<close>

record box =
  minX :: int
  minY :: int
  maxX :: int
  maxY :: int
  pixels :: "nat list"

definition passesNoiseFilter :: "bfs_state \<Rightarrow> bool" where
  "passesNoiseFilter s =
     (let widthBox = int (bfs_maxX s) - int (bfs_minX s) + 1;
          heightBox = int (bfs_maxY s) - int (bfs_minY s) + 1;
          areaBox = widthBox * heightBox
      in areaBox > 900 \<or> length (bfs_componentPixels s) > 200)"

record refit =
  rMinX :: nat
  rMaxX :: nat
  rMinY :: nat
  rMaxY :: nat
  hasContent :: bool

definition refitPixel :: "nat \<Rightarrow> nat list \<Rightarrow> nat \<Rightarrow> nat \<Rightarrow> refit \<Rightarrow> refit" where
  "refitPixel width data ry rx r =
     (if alphaAbove data (ry * width + rx)
      then \<lparr>rMinX = (if rx < rMinX r then rx else rMinX r),
            rMaxX = (if rx > rMaxX r then rx else rMaxX r),
            rMinY = (if ry < rMinY r then ry else rMinY r),
            rMaxY = (if ry > rMaxY r then ry else rMaxY r),
            hasContent = True\<rparr>
      else r)"

definition tightRefit :: "nat \<Rightarrow> nat \<Rightarrow> nat list \<Rightarrow> bfs_state \<Rightarrow> refit" where
  "tightRefit width height data s =
     fold (\<lambda>ry. fold (refitPixel width data ry) [bfs_minX s..<Suc (bfs_maxX s)])
       [bfs_minY s..<Suc (bfs_maxY s)]
       \<lparr>rMinX = width, rMaxX = 0, rMinY = height, rMaxY = 0, hasContent = False\<rparr>"

text \<open>
  The parity adjustment of one axis: \<open>lo\<close> and \<open>hi\<close> are the padded edges and
  \<open>extent\<close> the image's size on that axis.
\<close>

definition ensureEven :: "nat \<Rightarrow> int \<Rightarrow> int \<Rightarrow> int \<times> int" where
  "ensureEven extent lo hi =
     (if (hi - lo + 1) mod 2 \<noteq> 0
      then (if hi < int extent - 1 then (lo, hi + 1)
            else if lo > 0 then (lo - 1, hi)
            else (lo, hi))
      else (lo, hi))"

definition paddedBox :: "nat \<Rightarrow> nat \<Rightarrow> refit \<Rightarrow> box" where
  "paddedBox width height r =
     (let fMinX = max 0 (int (rMinX r) - int PADDING);
          fMinY = max 0 (int (rMinY r) - int PADDING);
          fMaxX = min (int width - 1) (int (rMaxX r) + int PADDING);
          fMaxY = min (int height - 1) (int (rMaxY r) + int PADDING);
          ex = ensureEven width fMinX fMaxX;
          ey = ensureEven height fMinY fMaxY
      in \<lparr>minX = fst ex, minY = fst ey, maxX = snd ex, maxY = snd ey, pixels = []\<rparr>)"

text \<open>
  What happens to a component that passed the noise filter (the body of the first
  \<open>if\<close>), and the whole treatment of a finished flood fill.
\<close>

definition refineComponent :: "nat \<Rightarrow> nat \<Rightarrow> nat list \<Rightarrow> bfs_state \<Rightarrow> box list" where
  "refineComponent width height data s =
     (let r = tightRefit width height data s
      in if hasContent r then [paddedBox width height r] else [])"

definition processComponent :: "nat \<Rightarrow> nat \<Rightarrow> nat list \<Rightarrow> bfs_state \<Rightarrow> box list" where
  "processComponent width height data s =
     (if passesNoiseFilter s then refineComponent width height data s else [])"

text \<open>Steps 2 and 3 of \<open>segmentImage\<close>: from the pixel data to \<open>objects\<close>.\<close>

definition segmentRegions :: "nat \<Rightarrow> nat \<Rightarrow> nat list \<Rightarrow> box list option" where
  "segmentRegions width height data =
     scanImage (processComponent width height data) width height
       (dilate width height (buildBinaryMap width height data))"

subsection \<open>Extraction\<close>

text \<open>
  The bitmap handed to \<open>segmentImage\<close>, with the RGBA bytes that \<open>getImageData\<close>
  reads back from it (four per pixel, row by row).
\<close>

record image_bitmap =
  bm_width :: nat
  bm_height :: nat
  bm_data :: "nat list"

text \<open>
  The record returned for each object. The fields are those of the interface
  \<open>SegmentedObject\<close>, behind the prefix \<open>so_\<close>.
\<close>

record SegmentedObject =
  so_id :: string
  so_sourceId :: string
  so_url :: string
  so_width :: int
  so_height :: int
  so_x :: int
  so_y :: int

text \<open>
  What the browser decides: whether a canvas yields a 2D context, whether the encoding
  of a raster to a blob is fulfilled, the URL made for a blob, and the clock. The
  natural-number argument is the index of the object whose callback asks.
\<close>

datatype failure = FailedToGetContext | CtxError | EncodeRejected

record platform =
  mainContext :: bool
  objContext :: "nat \<Rightarrow> bool"
  convertToBlob :: "nat \<Rightarrow> nat list \<Rightarrow> nat list option"
  createObjectURL :: "nat \<Rightarrow> nat list \<Rightarrow> string"
  dateNow :: "nat \<Rightarrow> nat"

text \<open>
  The RGBA bytes of one pixel of the bitmap; a position outside the bitmap is
  transparent black.
\<close>

definition pixelAt :: "image_bitmap \<Rightarrow> int \<Rightarrow> int \<Rightarrow> nat list" where
  "pixelAt b px py =
     (if 0 \<le> px \<and> px < int (bm_width b) \<and> 0 \<le> py \<and> py < int (bm_height b)
      then map (\<lambda>c. bm_data b ! (nat (py * int (bm_width b) + px) * 4 + c)) [0..<4]
      else [0, 0, 0, 0])"

text \<open>
  The content of a fresh canvas of \<open>cw\<close> by \<open>ch\<close> pixels after
  \<open>drawImage(imageBitmap, sx, sy, sw, sh, dx, dy, sw, sh)\<close>: the source rectangle is
  copied unscaled to the destination position, and every other pixel stays transparent.
\<close>

definition drawImage ::
  "int \<Rightarrow> int \<Rightarrow> image_bitmap \<Rightarrow> int \<Rightarrow> int \<Rightarrow> int \<Rightarrow> int \<Rightarrow> int \<Rightarrow> int \<Rightarrow> nat list" where
  "drawImage cw ch b sx sy sw sh dx dy =
     concat (map (\<lambda>j. concat (map (\<lambda>i.
         if dx \<le> int i \<and> int i < dx + sw \<and> dy \<le> int j \<and> int j < dy + sh
         then pixelAt b (sx + int i - dx) (sy + int j - dy)
         else [0, 0, 0, 0]) [0..<nat cw])) [0..<nat ch])"

text \<open>
  Cropping as the specification words it: the pixel rectangle of the given width and
  height whose top-left corner is \<open>(x, y)\<close>, row by row.
\<close>

definition cropBitmap :: "image_bitmap \<Rightarrow> int \<Rightarrow> int \<Rightarrow> int \<Rightarrow> int \<Rightarrow> nat list" where
  "cropBitmap b x y w h =
     concat (map (\<lambda>j. concat (map (\<lambda>i. pixelAt b (x + int i) (y + int j)) [0..<nat w]))
       [0..<nat h])"

definition digitChar :: "nat \<Rightarrow> char" where
  "digitChar d = ''0123456789'' ! d"

fun showNat :: "nat \<Rightarrow> string" where
  "showNat n = (if n < 10 then [digitChar n] else showNat (n div 10) @ [digitChar (n mod 10)])"

declare showNat.simps [simp del]

text \<open>The raster on \<open>objCanvas\<close> when it is handed to the encoder.\<close>

definition objectRaster :: "image_bitmap \<Rightarrow> box \<Rightarrow> nat list" where
  "objectRaster imageBitmap obj =
     (let objWidth = maxX obj - minX obj + 1;
          objHeight = maxY obj - minY obj + 1
      in drawImage objWidth objHeight imageBitmap (minX obj) (minY obj) objWidth objHeight 0 0)"

definition extractObject ::
  "platform \<Rightarrow> image_bitmap \<Rightarrow> string \<Rightarrow> nat \<times> box \<Rightarrow> failure + SegmentedObject" where
  "extractObject p imageBitmap sourceId io =
     (case io of (index, obj) \<Rightarrow>
        let objWidth = maxX obj - minX obj + 1;
            objHeight = maxY obj - minY obj + 1
        in if \<not> objContext p index then Inl CtxError
           else (case convertToBlob p index (objectRaster imageBitmap obj) of
                   None \<Rightarrow> Inl EncodeRejected
                 | Some blob \<Rightarrow>
                     Inr \<lparr>so_id = ''obj-'' @ sourceId @ ''-'' @ showNat index @ ''-''
                                   @ showNat (dateNow p index),
                          so_sourceId = sourceId,
                          so_url = createObjectURL p index blob,
                          so_width = objWidth,
                          so_height = objHeight,
                          so_x = minX obj,
                          so_y = minY obj\<rparr>))"

text \<open>
  \<open>Promise.all\<close>: fulfilled with all values in order, or rejected as soon as one member
  is. Which rejection wins is of no consequence here, the handler discards it.
\<close>

fun promiseAll :: "('e + 'a) list \<Rightarrow> 'e + 'a list" where
  "promiseAll [] = Inr []"
| "promiseAll (Inl e # ps) = Inl e"
| "promiseAll (Inr v # ps) = (case promiseAll ps of Inl e \<Rightarrow> Inl e | Inr vs \<Rightarrow> Inr (v # vs))"

text \<open>Step 4: \<open>Promise.all(objects.map(async (obj, index) => ...))\<close>.\<close>

definition extractObjects ::
  "platform \<Rightarrow> image_bitmap \<Rightarrow> string \<Rightarrow> box list \<Rightarrow> failure + SegmentedObject list" where
  "extractObjects p imageBitmap sourceId objects =
     promiseAll (map (extractObject p imageBitmap sourceId) (enumerate 0 objects))"

text \<open>
  The body of the \<open>try\<close> block, and \<open>segmentImage\<close> with its handler that turns
  every failure into the empty list. The outer \<open>option\<close> is inherited from the flood
  fill: \<open>None\<close> is a call that never returns.
\<close>

definition segmentImageTry ::
  "platform \<Rightarrow> image_bitmap \<Rightarrow> string \<Rightarrow> (failure + SegmentedObject list) option" where
  "segmentImageTry p imageBitmap sourceId =
     (if \<not> mainContext p then Some (Inl FailedToGetContext)
      else map_option (extractObjects p imageBitmap sourceId)
             (segmentRegions (bm_width imageBitmap) (bm_height imageBitmap) (bm_data imageBitmap)))"

definition catchAll :: "failure + SegmentedObject list \<Rightarrow> SegmentedObject list" where
  "catchAll r = (case r of Inl e \<Rightarrow> [] | Inr results \<Rightarrow> results)"

definition segmentImage ::
  "platform \<Rightarrow> image_bitmap \<Rightarrow> string \<Rightarrow> SegmentedObject list option" where
  "segmentImage p imageBitmap sourceId =
     map_option catchAll (segmentImageTry p imageBitmap sourceId)"

subsection \<open>Notions used to state and prove the properties\<close>

text \<open>
  \<open>marked m A m'\<close>: the array \<open>m'\<close> is \<open>m\<close> with the positions in \<open>A\<close> set to one.
  \<open>hSpan\<close> is the clamped span that a dilation pass fills, as a set.
\<close>

definition marked :: "nat list \<Rightarrow> nat set \<Rightarrow> nat list \<Rightarrow> bool" where
  "marked m A m' =
     (length m' = length m \<and> (\<forall>j < length m. m' ! j = (if j \<in> A then 1 else m ! j)))"

definition hSpan :: "nat \<Rightarrow> nat \<Rightarrow> nat set" where
  "hSpan extent x = {nat (max 0 (int x - int kernelSize))..<nat (min (int extent - 1) (int x + int kernelSize) + 1)}"

text \<open>
  The pixels of the original alpha channel above the threshold that lie inside the
  bounding box of a component, as \<open>(x, y)\<close> pairs, and the invariant of the refit scan
  over a set \<open>S\<close> of such pixels seen so far.
\<close>

definition contentPixels :: "nat \<Rightarrow> nat list \<Rightarrow> bfs_state \<Rightarrow> (nat \<times> nat) set" where
  "contentPixels width data s =
     {(x, y). bfs_minX s \<le> x \<and> x \<le> bfs_maxX s \<and> bfs_minY s \<le> y \<and> y \<le> bfs_maxY s \<and>
              alphaAbove data (y * width + x)}"

definition refitInv :: "nat \<Rightarrow> nat \<Rightarrow> (nat \<times> nat) set \<Rightarrow> refit \<Rightarrow> bool" where
  "refitInv width height S r =
     ((hasContent r \<longleftrightarrow> S \<noteq> {}) \<and>
      (\<forall>p \<in> S. fst p < width \<and> snd p < height \<and>
          rMinX r \<le> fst p \<and> fst p \<le> rMaxX r \<and> rMinY r \<le> snd p \<and> snd p \<le> rMaxY r) \<and>
      (rMinX r = width \<or> rMinX r \<in> fst ` S) \<and>
      (rMaxX r = 0 \<or> rMaxX r \<in> fst ` S) \<and>
      (rMinY r = height \<or> rMinY r \<in> snd ` S) \<and>
      (rMaxY r = 0 \<or> rMaxY r \<in> snd ` S))"

text \<open>
  Invariants of the flood fill and of the raster scan. \<open>vqInv\<close> relates the visited
  array and the queue of a running flood fill to the visited array \<open>v0\<close> it started
  from; \<open>bfsInv\<close> adds the read position, the dequeued pixels and the bounding box;
  \<open>adj\<close> is the neighbourhood the flood fill looks at, and \<open>closedInv\<close> says that
  every in-range neighbour with value one of a dequeued pixel has been visited;
  a set is closed (\<open>closedSet\<close>) when it contains these neighbours of its members,
  and \<open>exactInv\<close> says that the bounding box is attained by queued pixels and that
  the queue stays inside every closed set that holds the seed;
  \<open>compOK\<close> and \<open>compExact\<close> are what holds of a finished component; \<open>scanInv\<close> is the state of the
  scan after the first \<open>i\<close> pixels. \<open>emitAll\<close> maps a scan state that collects the
  components to the one that collects what \<open>emit\<close> makes of them.
\<close>

definition vqInv :: "nat \<Rightarrow> nat list \<Rightarrow> nat list \<Rightarrow> nat \<Rightarrow> nat list \<Rightarrow> nat list \<Rightarrow> bool" where
  "vqInv n dilatedMap v0 seed v q =
     (length v = n \<and> distinct q \<and>
      (\<forall>i. truthy v i \<longleftrightarrow> truthy v0 i \<or> i \<in> set q) \<and>
      (\<forall>i \<in> set q. i < n \<and> \<not> truthy v0 i \<and> (i = seed \<or> eqAt dilatedMap i 1)))"

definition bfsInv :: "nat \<Rightarrow> nat \<Rightarrow> nat list \<Rightarrow> nat list \<Rightarrow> nat \<Rightarrow> nat \<Rightarrow> bfs_state \<Rightarrow> bool" where
  "bfsInv width height dilatedMap v0 x0 y0 s =
     (vqInv (width * height) dilatedMap v0 (y0 * width + x0) (bfs_visited s) (bfs_queue s) \<and>
      bfs_head s \<le> length (bfs_queue s) \<and>
      bfs_componentPixels s = take (bfs_head s) (bfs_queue s) \<and>
      bfs_queue s \<noteq> [] \<and> hd (bfs_queue s) = y0 * width + x0 \<and>
      bfs_minX s \<le> x0 \<and> x0 \<le> bfs_maxX s \<and> bfs_maxX s < width \<and>
      bfs_minY s \<le> y0 \<and> y0 \<le> bfs_maxY s \<and> bfs_maxY s < height \<and>
      (\<forall>i \<in> set (bfs_componentPixels s).
          bfs_minX s \<le> i mod width \<and> i mod width \<le> bfs_maxX s \<and>
          bfs_minY s \<le> i div width \<and> i div width \<le> bfs_maxY s))"

definition adj :: "nat \<Rightarrow> nat \<Rightarrow> nat \<Rightarrow> nat \<Rightarrow> bool" where
  "adj width height p q =
     (\<exists>n \<in> set (neighbors (p mod width) (p div width)).
        0 \<le> fst n \<and> fst n < int width \<and> 0 \<le> snd n \<and> snd n < int height \<and>
        q = nat (snd n * int width + fst n))"

definition closedInv :: "nat \<Rightarrow> nat \<Rightarrow> nat list \<Rightarrow> bfs_state \<Rightarrow> bool" where
  "closedInv width height dilatedMap s =
     (\<forall>p \<in> set (take (bfs_head s) (bfs_queue s)). \<forall>q.
        adj width height p q \<and> eqAt dilatedMap q 1 \<longrightarrow> truthy (bfs_visited s) q)"

definition closedSet :: "nat \<Rightarrow> nat \<Rightarrow> nat list \<Rightarrow> nat set \<Rightarrow> bool" where
  "closedSet width height dilatedMap S =
     (\<forall>p \<in> S. \<forall>q. adj width height p q \<and> eqAt dilatedMap q 1 \<longrightarrow> q \<in> S)"

definition exactInv :: "nat \<Rightarrow> nat \<Rightarrow> nat list \<Rightarrow> bfs_state \<Rightarrow> bool" where
  "exactInv width height dilatedMap s =
     (bfs_minX s \<in> (\<lambda>p. p mod width) ` set (bfs_queue s) \<and>
      bfs_maxX s \<in> (\<lambda>p. p mod width) ` set (bfs_queue s) \<and>
      bfs_minY s \<in> (\<lambda>p. p div width) ` set (bfs_queue s) \<and>
      bfs_maxY s \<in> (\<lambda>p. p div width) ` set (bfs_queue s) \<and>
      (\<forall>S. hd (bfs_queue s) \<in> S \<and> closedSet width height dilatedMap S \<longrightarrow>
           set (bfs_queue s) \<subseteq> S))"

definition compExact :: "nat \<Rightarrow> nat \<Rightarrow> nat list \<Rightarrow> bfs_state \<Rightarrow> bool" where
  "compExact width height dilatedMap c =
     (bfs_minX c \<in> (\<lambda>p. p mod width) ` set (bfs_componentPixels c) \<and>
      bfs_maxX c \<in> (\<lambda>p. p mod width) ` set (bfs_componentPixels c) \<and>
      bfs_minY c \<in> (\<lambda>p. p div width) ` set (bfs_componentPixels c) \<and>
      bfs_maxY c \<in> (\<lambda>p. p div width) ` set (bfs_componentPixels c) \<and>
      (\<forall>S. hd (bfs_componentPixels c) \<in> S \<and> closedSet width height dilatedMap S \<longrightarrow>
           set (bfs_componentPixels c) \<subseteq> S))"

definition compOK :: "nat \<Rightarrow> nat \<Rightarrow> nat list \<Rightarrow> bfs_state \<Rightarrow> bool" where
  "compOK width height dilatedMap c =
     (bfs_queue c = bfs_componentPixels c \<and> bfs_componentPixels c \<noteq> [] \<and>
      distinct (bfs_componentPixels c) \<and>
      (\<forall>p \<in> set (bfs_componentPixels c).
          hd (bfs_componentPixels c) \<le> p \<and> p < width * height \<and> \<not> eqAt dilatedMap p 0 \<and>
          bfs_minX c \<le> p mod width \<and> p mod width \<le> bfs_maxX c \<and>
          bfs_minY c \<le> p div width \<and> p div width \<le> bfs_maxY c) \<and>
      bfs_minX c \<le> bfs_maxX c \<and> bfs_maxX c < width \<and>
      bfs_minY c \<le> bfs_maxY c \<and> bfs_maxY c < height)"

definition scanInv :: "nat \<Rightarrow> nat \<Rightarrow> nat list \<Rightarrow> nat \<Rightarrow> nat list \<Rightarrow> bfs_state list \<Rightarrow> bool" where
  "scanInv width height dilatedMap i v cs =
     (length v = width * height \<and>
      (\<forall>j. truthy v j \<longleftrightarrow> (\<exists>c \<in> set cs. j \<in> set (bfs_componentPixels c))) \<and>
      (\<forall>j < i. truthy v j \<or> eqAt dilatedMap j 0) \<and>
      distinct (concat (map bfs_componentPixels cs)) \<and>
      (\<forall>c \<in> set cs. compOK width height dilatedMap c \<and> hd (bfs_componentPixels c) < i) \<and>
      sorted_wrt (<) (map (\<lambda>c. hd (bfs_componentPixels c)) cs) \<and>
      (\<forall>k < length cs. \<forall>p \<in> set (bfs_componentPixels (cs ! k)). \<forall>q.
          adj width height p q \<and> eqAt dilatedMap q 1 \<longrightarrow>
          q \<in> set (concat (map bfs_componentPixels (take (Suc k) cs)))) \<and>
      (\<forall>c \<in> set cs. compExact width height dilatedMap c))"

definition emitAll :: "(bfs_state \<Rightarrow> 'a list) \<Rightarrow> (nat list \<times> bfs_state list) option \<Rightarrow> (nat list \<times> 'a list) option" where
  "emitAll emit st = map_option (\<lambda>(v, cs). (v, concat (map emit cs))) st"

subsection \<open>Example inputs\<close>

text \<open>
  A bitmap of 15 by 14 pixels, transparent except for one opaque pixel at \<open>(7, 7)\<close>
  (pixel 112, whose alpha byte is byte 451 of the data).
\<close>

definition exampleData :: "nat list" where
  "exampleData = replicate 451 0 @ [255] @ replicate 388 0"

definition exampleBitmap :: image_bitmap where
  "exampleBitmap = \<lparr>bm_width = 15, bm_height = 14, bm_data = exampleData\<rparr>"

text \<open>
  A bitmap of 4 by 3 pixels with two opaque pixels, at \<open>(1, 1)\<close> and \<open>(2, 1)\<close>, and a
  bitmap of 3 by 2 pixels whose bytes are numbered from 0 to 23.
\<close>

definition smallData :: "nat list" where
  "smallData = replicate 23 0 @ [255, 0, 0, 0, 255] @ replicate 20 0"

definition tinyBitmap :: image_bitmap where
  "tinyBitmap = \<lparr>bm_width = 3, bm_height = 2, bm_data = [0..<24]\<rparr>"

text \<open>
  A bitmap one pixel wide and 403 pixels high. Its opaque pixels are the rows of
  \<open>stripRows\<close>: seven of them dilate to the rows 0 to 200, the other seven to the rows
  202 to 402, and row 201 stays clear.
\<close>

definition stripRows :: "nat list" where
  "stripRows = [15, 46, 77, 108, 139, 170, 185, 217, 248, 279, 310, 341, 372, 387]"

definition stripData :: "nat list" where
  "stripData = concat (map (\<lambda>i. [0, 0, 0, if i \<in> set stripRows then 255 else 0]) [0..<403])"

definition stripBitmap :: image_bitmap where
  "stripBitmap = \<lparr>bm_width = 1, bm_height = 403, bm_data = stripData\<rparr>"

text \<open>
  Three browsers: one where every canvas has a context and every encoding is fulfilled,
  a second one that differs from it in its clock only, and one whose encoder rejects the
  raster of the object with index 0.
\<close>

definition examplePlatform :: platform where
  "examplePlatform =
     \<lparr>mainContext = True, objContext = (\<lambda>i. True),
      convertToBlob = (\<lambda>i raster. Some raster),
      createObjectURL = (\<lambda>i blob. ''blob:'' @ showNat i),
      dateNow = (\<lambda>i. 1000 + i)\<rparr>"

definition laterPlatform :: platform where
  "laterPlatform = examplePlatform\<lparr>dateNow := (\<lambda>i. 2000 + i)\<rparr>"

definition rejectingPlatform :: platform where
  "rejectingPlatform =
     examplePlatform\<lparr>convertToBlob := (\<lambda>i raster. if i = 0 then None else Some raster)\<rparr>"


section \<open>Properties\<close>

subsection \<open>Dilation\<close>

text \<open>
  Every loop of the two passes only ever writes ones, so each of them is described by the
  set of positions it writes. These sets compose along \<open>fold\<close>; read at a pixel
  position they give the span condition of each pass, and the two conditions together
  are the Chebyshev ball.
\<close>

lemma marked_update: "marked m {i} (m[i := 1])"
  by (auto simp: marked_def nth_list_update)

lemma marked_trans: "marked m A m' \<Longrightarrow> marked m' B m'' \<Longrightarrow> marked m (A \<union> B) m''"
  by (auto simp: marked_def)

lemma marked_refl: "marked m {} m"
  by (simp add: marked_def)

lemma marked_fold:
  assumes "\<And>x m. x \<in> set xs \<Longrightarrow> marked m (A x) (g x m)"
  shows "marked m (\<Union>x \<in> set xs. A x) (fold g xs m)"
  using assms
proof (induction xs arbitrary: m)
  case Nil
  then show ?case by (simp add: marked_refl)
next
  case (Cons x xs)
  have 1: "marked m (A x) (g x m)" using Cons.prems by simp
  have 2: "marked (g x m) (\<Union>x \<in> set xs. A x) (fold g xs (g x m))"
    using Cons.prems by (intro Cons.IH) simp
  have "marked m (A x \<union> (\<Union>x \<in> set xs. A x)) (fold g xs (g x m))"
    by (rule marked_trans[OF 1 2])
  then show ?case by simp
qed

lemma marked_fillSpan:
  "marked m (f ` {nat a..<nat (b + 1)}) (fillSpan f a b m)"
proof -
  have "marked m (\<Union>k \<in> set [nat a..<nat (b + 1)]. {f k}) (fillSpan f a b m)"
    unfolding fillSpan_def by (rule marked_fold) (rule marked_update)
  moreover have "(\<Union>k \<in> set [nat a..<nat (b + 1)]. {f k}) = f ` {nat a..<nat (b + 1)}"
    by auto
  ultimately show ?thesis by simp
qed

lemma marked_if_fillSpan:
  "marked m (if c then f ` {nat a..<nat (b + 1)} else {}) (if c then fillSpan f a b m else m)"
  by (cases c) (simp_all only: if_True if_False marked_refl marked_fillSpan)

lemma hSpan_iff: "x < extent \<Longrightarrow> k \<in> hSpan extent x \<longleftrightarrow> k < extent \<and> chebyshevNear kernelSize k x"
  by (auto simp: hSpan_def chebyshevNear_def)

lemma marked_horizontal:
  "marked (replicate (width * height) 0)
     (\<Union>y \<in> {..<height}. \<Union>x \<in> {..<width}.
         if truthy binaryMap (y * width + x) then (\<lambda>k. y * width + k) ` hSpan width x else {})
     (horizontalDilation width height binaryMap)"
proof -
  have "marked (replicate (width * height) 0)
     (\<Union>y \<in> set [0..<height]. \<Union>x \<in> set [0..<width].
         if truthy binaryMap (y * width + x) then (\<lambda>k. y * width + k) ` hSpan width x else {})
     (horizontalDilation width height binaryMap)"
    unfolding horizontalDilation_def hSpan_def
    apply (rule marked_fold)
    apply (rule marked_fold)
    apply (rule marked_if_fillSpan)
    done
  then show ?thesis by (simp add: atLeast0LessThan)
qed

lemma marked_vertical:
  "marked (replicate (width * height) 0)
     (\<Union>y \<in> {..<height}. \<Union>x \<in> {..<width}.
         if truthy tempMap (y * width + x) then (\<lambda>k. k * width + x) ` hSpan height y else {})
     (verticalDilation width height tempMap)"
proof -
  have "marked (replicate (width * height) 0)
     (\<Union>y \<in> set [0..<height]. \<Union>x \<in> set [0..<width].
         if truthy tempMap (y * width + x) then (\<lambda>k. k * width + x) ` hSpan height y else {})
     (verticalDilation width height tempMap)"
    unfolding verticalDilation_def hSpan_def
    apply (rule marked_fold)
    apply (rule marked_fold)
    apply (rule marked_if_fillSpan)
    done
  then show ?thesis by (simp add: atLeast0LessThan)
qed

lemma marked_zero_nth:
  assumes "marked (replicate n 0) A m" "j < n"
  shows "m ! j = (if j \<in> A then 1 else 0)" and "truthy m j \<longleftrightarrow> j \<in> A" and "length m = n"
  using assms by (auto simp: marked_def truthy_def)

lemma index_unique:
  fixes width :: nat
  assumes "a * width + b = c * width + d" "b < width" "d < width"
  shows "a = c \<and> b = d"
proof -
  have 1: "(a * width + b) div width = a" using assms(2) by simp
  have 2: "(c * width + d) div width = c" using assms(3) by simp
  have "(a * width + b) div width = (c * width + d) div width"
    using assms(1) by (rule arg_cong)
  then have "a = c" unfolding 1 2 .
  then show ?thesis using assms(1) by simp
qed

lemma index_lt: "x < width \<Longrightarrow> y < height \<Longrightarrow> y * width + x < width * (height::nat)"
proof -
  assume a: "x < width" "y < height"
  have "y * width + x < y * width + width" using a by simp
  also have "\<dots> = (Suc y) * width" by simp
  also have "\<dots> \<le> height * width" using a by (intro mult_le_mono1) simp
  finally show ?thesis by (simp add: mult.commute)
qed

lemma horizontal_pixel:
  assumes "x < width" "y < height"
  shows "truthy (horizontalDilation width height binaryMap) (y * width + x) \<longleftrightarrow>
         (\<exists>x' < width. truthy binaryMap (y * width + x') \<and> chebyshevNear kernelSize x x')"
proof -
  have lt: "y * width + x < width * height" using assms by (rule index_lt)
  have "truthy (horizontalDilation width height binaryMap) (y * width + x) \<longleftrightarrow>
     y * width + x \<in> (\<Union>y \<in> {..<height}. \<Union>x \<in> {..<width}.
         if truthy binaryMap (y * width + x) then (\<lambda>k. y * width + k) ` hSpan width x else {})"
    by (rule marked_zero_nth(2)[OF marked_horizontal lt])
  also have "\<dots> \<longleftrightarrow> (\<exists>x' < width. truthy binaryMap (y * width + x') \<and> chebyshevNear kernelSize x x')"
  proof
    assume "y * width + x \<in> (\<Union>y \<in> {..<height}. \<Union>x \<in> {..<width}.
         if truthy binaryMap (y * width + x) then (\<lambda>k. y * width + k) ` hSpan width x else {})"
    then obtain y' x' k where h: "y' < height" "x' < width" "truthy binaryMap (y' * width + x')"
        "k \<in> hSpan width x'" "y * width + x = y' * width + k"
      by (auto split: if_splits)
    have k: "k < width" "chebyshevNear kernelSize k x'" using h(4) hSpan_iff[OF h(2)] by auto
    have "y = y' \<and> x = k" using index_unique[OF h(5) assms(1) k(1)] .
    then show "\<exists>x' < width. truthy binaryMap (y * width + x') \<and> chebyshevNear kernelSize x x'"
      using h k by auto
  next
    assume "\<exists>x' < width. truthy binaryMap (y * width + x') \<and> chebyshevNear kernelSize x x'"
    then obtain x' where h: "x' < width" "truthy binaryMap (y * width + x')" "chebyshevNear kernelSize x x'"
      by auto
    have "x \<in> hSpan width x'" using hSpan_iff[OF h(1)] h(3) assms by simp
    then have "y * width + x \<in>
        (if truthy binaryMap (y * width + x') then (\<lambda>k. y * width + k) ` hSpan width x' else {})"
      using h(2) by (auto intro!: image_eqI[where x = x])
    moreover have "y \<in> {..<height}" "x' \<in> {..<width}" using h assms by simp_all
    ultimately show "y * width + x \<in> (\<Union>y \<in> {..<height}. \<Union>x \<in> {..<width}.
         if truthy binaryMap (y * width + x) then (\<lambda>k. y * width + k) ` hSpan width x else {})"
      by blast
  qed
  finally show ?thesis .
qed

lemma vertical_pixel:
  assumes "x < width" "y < height"
  shows "truthy (verticalDilation width height tempMap) (y * width + x) \<longleftrightarrow>
         (\<exists>y' < height. truthy tempMap (y' * width + x) \<and> chebyshevNear kernelSize y y')"
proof -
  have lt: "y * width + x < width * height" using assms by (rule index_lt)
  have "truthy (verticalDilation width height tempMap) (y * width + x) \<longleftrightarrow>
     y * width + x \<in> (\<Union>y \<in> {..<height}. \<Union>x \<in> {..<width}.
         if truthy tempMap (y * width + x) then (\<lambda>k. k * width + x) ` hSpan height y else {})"
    by (rule marked_zero_nth(2)[OF marked_vertical lt])
  also have "\<dots> \<longleftrightarrow> (\<exists>y' < height. truthy tempMap (y' * width + x) \<and> chebyshevNear kernelSize y y')"
  proof
    assume "y * width + x \<in> (\<Union>y \<in> {..<height}. \<Union>x \<in> {..<width}.
         if truthy tempMap (y * width + x) then (\<lambda>k. k * width + x) ` hSpan height y else {})"
    then obtain y' x' k where h: "y' < height" "x' < width" "truthy tempMap (y' * width + x')"
        "k \<in> hSpan height y'" "y * width + x = k * width + x'"
      by (auto split: if_splits)
    have k: "k < height" "chebyshevNear kernelSize k y'" using h(4) hSpan_iff[OF h(1)] by auto
    have "y = k \<and> x = x'" using index_unique[OF h(5) assms(1) h(2)] .
    then show "\<exists>y' < height. truthy tempMap (y' * width + x) \<and> chebyshevNear kernelSize y y'"
      using h k by auto
  next
    assume "\<exists>y' < height. truthy tempMap (y' * width + x) \<and> chebyshevNear kernelSize y y'"
    then obtain y' where h: "y' < height" "truthy tempMap (y' * width + x)" "chebyshevNear kernelSize y y'"
      by auto
    have "y \<in> hSpan height y'" using hSpan_iff[OF h(1)] h(3) assms by simp
    then have "y * width + x \<in>
        (if truthy tempMap (y' * width + x) then (\<lambda>k. k * width + x) ` hSpan height y' else {})"
      using h(2) by (auto intro!: image_eqI[where x = y])
    moreover have "y' \<in> {..<height}" "x \<in> {..<width}" using h assms by simp_all
    ultimately show "y * width + x \<in> (\<Union>y \<in> {..<height}. \<Union>x \<in> {..<width}.
         if truthy tempMap (y * width + x) then (\<lambda>k. k * width + x) ` hSpan height y else {})"
      by blast
  qed
  finally show ?thesis .
qed

lemma dilate_pixel:
  assumes "x < width" "y < height"
  shows "truthy (dilate width height binaryMap) (y * width + x) \<longleftrightarrow>
         (\<exists>y' < height. \<exists>x' < width. truthy binaryMap (y' * width + x') \<and>
             chebyshevNear kernelSize x x' \<and> chebyshevNear kernelSize y y')"
proof -
  have "truthy (dilate width height binaryMap) (y * width + x) \<longleftrightarrow>
     (\<exists>y' < height. truthy (horizontalDilation width height binaryMap) (y' * width + x) \<and>
          chebyshevNear kernelSize y y')"
    unfolding dilate_def by (rule vertical_pixel[OF assms])
  also have "\<dots> \<longleftrightarrow> (\<exists>y' < height. (\<exists>x' < width. truthy binaryMap (y' * width + x') \<and>
          chebyshevNear kernelSize x x') \<and> chebyshevNear kernelSize y y')"
    using horizontal_pixel[OF assms(1), of _ height binaryMap] by blast
  also have "\<dots> \<longleftrightarrow> (\<exists>y' < height. \<exists>x' < width. truthy binaryMap (y' * width + x') \<and>
             chebyshevNear kernelSize x x' \<and> chebyshevNear kernelSize y y')"
    by blast
  finally show ?thesis .
qed

lemma dilate_length: "length (dilate width height binaryMap) = width * height"
  unfolding dilate_def using marked_vertical[of width height] by (simp add: marked_def)

lemma dilate_nth:
  assumes "i < width * height"
  shows "dilate width height binaryMap ! i = (if truthy (dilate width height binaryMap) i then 1 else 0)"
proof -
  show ?thesis
    unfolding dilate_def
    using marked_zero_nth(1,2)[OF marked_vertical assms, of "horizontalDilation width height binaryMap"]
    by simp
qed

subsection \<open>Refit\<close>

text \<open>
  The refit scan keeps \<open>refitInv\<close> for the set of content pixels it has passed. The
  starting values \<open>width\<close> and \<open>height\<close> of the two minima are overwritten by the
  first content pixel because the bounding box scanned lies within the image.
\<close>

lemma refitPixel_hit:
  "alphaAbove data (y * width + x) \<Longrightarrow>
   refitPixel width data y x r =
     \<lparr>rMinX = min x (rMinX r), rMaxX = max x (rMaxX r),
      rMinY = min y (rMinY r), rMaxY = max y (rMaxY r), hasContent = True\<rparr>"
  by (simp add: refitPixel_def min_def max_def)

lemma refitPixel_miss:
  "\<not> alphaAbove data (y * width + x) \<Longrightarrow> refitPixel width data y x r = r"
  by (simp add: refitPixel_def)

lemma refitInv_insert:
  assumes inv: "refitInv width height S r" and "x < width" "y < height"
  shows "refitInv width height (insert (x, y) S)
           \<lparr>rMinX = min x (rMinX r), rMaxX = max x (rMaxX r),
            rMinY = min y (rMinY r), rMaxY = max y (rMaxY r), hasContent = True\<rparr>"
proof -
  have b: "\<forall>p \<in> S. fst p < width \<and> snd p < height \<and>
          rMinX r \<le> fst p \<and> fst p \<le> rMaxX r \<and> rMinY r \<le> snd p \<and> snd p \<le> rMaxY r"
    using inv by (simp add: refitInv_def)
  have a1: "rMinX r = width \<or> rMinX r \<in> fst ` S" using inv by (simp add: refitInv_def)
  have a2: "rMaxX r = 0 \<or> rMaxX r \<in> fst ` S" using inv by (simp add: refitInv_def)
  have a3: "rMinY r = height \<or> rMinY r \<in> snd ` S" using inv by (simp add: refitInv_def)
  have a4: "rMaxY r = 0 \<or> rMaxY r \<in> snd ` S" using inv by (simp add: refitInv_def)
  have c1: "min x (rMinX r) = width \<or> min x (rMinX r) \<in> fst ` insert (x, y) S"
    using a1 \<open>x < width\<close> by (auto simp: min_def)
  have c2: "max x (rMaxX r) = 0 \<or> max x (rMaxX r) \<in> fst ` insert (x, y) S"
    using a2 by (auto simp: max_def)
  have c3: "min y (rMinY r) = height \<or> min y (rMinY r) \<in> snd ` insert (x, y) S"
    using a3 \<open>y < height\<close> by (auto simp: min_def)
  have c4: "max y (rMaxY r) = 0 \<or> max y (rMaxY r) \<in> snd ` insert (x, y) S"
    using a4 by (auto simp: max_def)
  have c0: "\<forall>p \<in> insert (x, y) S. fst p < width \<and> snd p < height \<and>
          min x (rMinX r) \<le> fst p \<and> fst p \<le> max x (rMaxX r) \<and>
          min y (rMinY r) \<le> snd p \<and> snd p \<le> max y (rMaxY r)"
    using b \<open>x < width\<close> \<open>y < height\<close> by (auto simp: min_def max_def)
  show ?thesis
    unfolding refitInv_def using c0 c1 c2 c3 c4 by simp
qed

lemma refitPixel_inv:
  assumes "refitInv width height S r" "x < width" "y < height"
  shows "refitInv width height (S \<union> {p. p = (x, y) \<and> alphaAbove data (y * width + x)})
           (refitPixel width data y x r)"
proof (cases "alphaAbove data (y * width + x)")
  case False
  then show ?thesis using assms by (simp add: refitPixel_miss)
next
  case True
  then have eq: "S \<union> {p. p = (x, y) \<and> alphaAbove data (y * width + x)} = insert (x, y) S"
    by auto
  show ?thesis
    unfolding eq refitPixel_hit[OF True] by (rule refitInv_insert[OF assms])
qed

lemma fold_refit_row:
  "refitInv width height S r \<Longrightarrow> \<forall>x \<in> set xs. x < width \<Longrightarrow> y < height \<Longrightarrow>
   refitInv width height (S \<union> {p. fst p \<in> set xs \<and> snd p = y \<and> alphaAbove data (y * width + fst p)})
     (fold (refitPixel width data y) xs r)"
proof (induction xs arbitrary: S r)
  case Nil
  then show ?case by simp
next
  case (Cons x xs)
  have step: "refitInv width height (S \<union> {p. p = (x, y) \<and> alphaAbove data (y * width + x)})
           (refitPixel width data y x r)"
    using Cons.prems by (intro refitPixel_inv) auto
  have "refitInv width height
          ((S \<union> {p. p = (x, y) \<and> alphaAbove data (y * width + x)}) \<union>
           {p. fst p \<in> set xs \<and> snd p = y \<and> alphaAbove data (y * width + fst p)})
          (fold (refitPixel width data y) xs (refitPixel width data y x r))"
    using Cons.prems by (intro Cons.IH[OF step]) auto
  moreover have "(S \<union> {p. p = (x, y) \<and> alphaAbove data (y * width + x)}) \<union>
           {p. fst p \<in> set xs \<and> snd p = y \<and> alphaAbove data (y * width + fst p)}
         = S \<union> {p. fst p \<in> set (x # xs) \<and> snd p = y \<and> alphaAbove data (y * width + fst p)}"
    by auto
  ultimately show ?case by simp
qed

lemma fold_refit_rows:
  "refitInv width height S r \<Longrightarrow> \<forall>x \<in> set xs. x < width \<Longrightarrow> \<forall>y \<in> set ys. y < height \<Longrightarrow>
   refitInv width height
     (S \<union> {p. fst p \<in> set xs \<and> snd p \<in> set ys \<and> alphaAbove data (snd p * width + fst p)})
     (fold (\<lambda>y. fold (refitPixel width data y) xs) ys r)"
proof (induction ys arbitrary: S r)
  case Nil
  then show ?case by simp
next
  case (Cons y ys)
  have step: "refitInv width height
      (S \<union> {p. fst p \<in> set xs \<and> snd p = y \<and> alphaAbove data (y * width + fst p)})
      (fold (refitPixel width data y) xs r)"
    using Cons.prems by (intro fold_refit_row) auto
  have "refitInv width height
      ((S \<union> {p. fst p \<in> set xs \<and> snd p = y \<and> alphaAbove data (y * width + fst p)}) \<union>
       {p. fst p \<in> set xs \<and> snd p \<in> set ys \<and> alphaAbove data (snd p * width + fst p)})
      (fold (\<lambda>y. fold (refitPixel width data y) xs) ys (fold (refitPixel width data y) xs r))"
    using Cons.prems by (intro Cons.IH[OF step]) auto
  moreover have "(S \<union> {p. fst p \<in> set xs \<and> snd p = y \<and> alphaAbove data (y * width + fst p)}) \<union>
       {p. fst p \<in> set xs \<and> snd p \<in> set ys \<and> alphaAbove data (snd p * width + fst p)}
     = S \<union> {p. fst p \<in> set xs \<and> snd p \<in> set (y # ys) \<and> alphaAbove data (snd p * width + fst p)}"
    by auto
  ultimately show ?case by simp
qed

lemma tightRefit_inv:
  assumes "bfs_maxX s < width" "bfs_maxY s < height"
  shows "refitInv width height (contentPixels width data s) (tightRefit width height data s)"
proof -
  have init: "refitInv width height {}
      \<lparr>rMinX = width, rMaxX = 0, rMinY = height, rMaxY = 0, hasContent = False\<rparr>"
    by (simp add: refitInv_def)
  have "refitInv width height
     ({} \<union> {p. fst p \<in> set [bfs_minX s..<Suc (bfs_maxX s)] \<and> snd p \<in> set [bfs_minY s..<Suc (bfs_maxY s)]
             \<and> alphaAbove data (snd p * width + fst p)})
     (tightRefit width height data s)"
    unfolding tightRefit_def using assms by (intro fold_refit_rows[OF init]) auto
  moreover have "{} \<union> {p. fst p \<in> set [bfs_minX s..<Suc (bfs_maxX s)] \<and> snd p \<in> set [bfs_minY s..<Suc (bfs_maxY s)]
             \<and> alphaAbove data (snd p * width + fst p)} = contentPixels width data s"
    by (auto simp: contentPixels_def)
  ultimately show ?thesis by simp
qed

lemma contentPixels_finite: "finite (contentPixels width data s)"
proof -
  have "contentPixels width data s \<subseteq> {..bfs_maxX s} \<times> {..bfs_maxY s}"
    by (auto simp: contentPixels_def)
  then show ?thesis by (rule finite_subset) simp
qed

lemma refitInv_Min_Max:
  assumes inv: "refitInv width height S r" and fin: "finite S" and ne: "S \<noteq> {}"
  shows "rMinX r = Min (fst ` S) \<and> rMaxX r = Max (fst ` S) \<and>
         rMinY r = Min (snd ` S) \<and> rMaxY r = Max (snd ` S)"
proof -
  obtain p where p: "p \<in> S" using ne by auto
  have b: "\<forall>p \<in> S. fst p < width \<and> snd p < height \<and>
          rMinX r \<le> fst p \<and> fst p \<le> rMaxX r \<and> rMinY r \<le> snd p \<and> snd p \<le> rMaxY r"
    using inv by (simp add: refitInv_def)
  have a1: "rMinX r \<in> fst ` S" using inv b p by (auto simp: refitInv_def)
  have a2: "rMaxX r \<in> fst ` S"
  proof -
    have "rMaxX r = 0 \<or> rMaxX r \<in> fst ` S" using inv by (simp add: refitInv_def)
    moreover have "rMaxX r = 0 \<Longrightarrow> fst p = 0" using b p by auto
    ultimately show ?thesis using p by (metis imageI)
  qed
  have a3: "rMinY r \<in> snd ` S" using inv b p by (auto simp: refitInv_def)
  have a4: "rMaxY r \<in> snd ` S"
  proof -
    have "rMaxY r = 0 \<or> rMaxY r \<in> snd ` S" using inv by (simp add: refitInv_def)
    moreover have "rMaxY r = 0 \<Longrightarrow> snd p = 0" using b p by auto
    ultimately show ?thesis using p by (metis imageI)
  qed
  have f1: "finite (fst ` S)" and f2: "finite (snd ` S)" using fin by auto
  have "Min (fst ` S) = rMinX r" using a1 b f1 by (intro Min_eqI) auto
  moreover have "Max (fst ` S) = rMaxX r" using a2 b f1 by (intro Max_eqI) auto
  moreover have "Min (snd ` S) = rMinY r" using a3 b f2 by (intro Min_eqI) auto
  moreover have "Max (snd ` S) = rMaxY r" using a4 b f2 by (intro Max_eqI) auto
  ultimately show ?thesis by simp
qed

lemma ensureEven_props:
  assumes "0 \<le> lo" "lo \<le> hi" "hi < int extent"
  shows "0 \<le> fst (ensureEven extent lo hi) \<and> fst (ensureEven extent lo hi) \<le> lo \<and>
         hi \<le> snd (ensureEven extent lo hi) \<and> snd (ensureEven extent lo hi) < int extent"
  using assms by (auto simp: ensureEven_def)

lemma ensureEven_parity:
  assumes "0 \<le> lo" "lo \<le> hi" "hi < int extent"
  shows "even (snd (ensureEven extent lo hi) - fst (ensureEven extent lo hi) + 1) \<or>
         (fst (ensureEven extent lo hi) = 0 \<and> snd (ensureEven extent lo hi) = int extent - 1 \<and> odd extent)"
  using assms by (auto simp: ensureEven_def) presburger+

lemma paddedBox_props:
  assumes "rMinX r \<le> rMaxX r" "rMaxX r < width" "rMinY r \<le> rMaxY r" "rMaxY r < height"
  shows "0 \<le> minX (paddedBox width height r) \<and> minX (paddedBox width height r) \<le> int (rMinX r) \<and>
         int (rMaxX r) \<le> maxX (paddedBox width height r) \<and> maxX (paddedBox width height r) < int width \<and>
         0 \<le> minY (paddedBox width height r) \<and> minY (paddedBox width height r) \<le> int (rMinY r) \<and>
         int (rMaxY r) \<le> maxY (paddedBox width height r) \<and> maxY (paddedBox width height r) < int height"
proof -
  let ?lx = "max 0 (int (rMinX r) - int PADDING)" and ?hx = "min (int width - 1) (int (rMaxX r) + int PADDING)"
  let ?ly = "max 0 (int (rMinY r) - int PADDING)" and ?hy = "min (int height - 1) (int (rMaxY r) + int PADDING)"
  have x: "0 \<le> ?lx" "?lx \<le> ?hx" "?hx < int width" "?lx \<le> int (rMinX r)" "int (rMaxX r) \<le> ?hx"
    using assms by (auto simp: PADDING_def)
  have y: "0 \<le> ?ly" "?ly \<le> ?hy" "?hy < int height" "?ly \<le> int (rMinY r)" "int (rMaxY r) \<le> ?hy"
    using assms by (auto simp: PADDING_def)
  define ex where "ex = ensureEven width ?lx ?hx"
  define ey where "ey = ensureEven height ?ly ?hy"
  have px: "0 \<le> fst ex \<and> fst ex \<le> ?lx \<and> ?hx \<le> snd ex \<and> snd ex < int width"
    unfolding ex_def by (rule ensureEven_props[OF x(1,2,3)])
  have py: "0 \<le> fst ey \<and> fst ey \<le> ?ly \<and> ?hy \<le> snd ey \<and> snd ey < int height"
    unfolding ey_def by (rule ensureEven_props[OF y(1,2,3)])
  have "fst ex \<le> int (rMinX r)" using px x(4) by (meson order_trans)
  moreover have "int (rMaxX r) \<le> snd ex" using px x(5) by (meson order_trans)
  moreover have "fst ey \<le> int (rMinY r)" using py y(4) by (meson order_trans)
  moreover have "int (rMaxY r) \<le> snd ey" using py y(5) by (meson order_trans)
  moreover have "paddedBox width height r =
      \<lparr>minX = fst ex, minY = fst ey, maxX = snd ex, maxY = snd ey, pixels = []\<rparr>"
    by (simp add: paddedBox_def Let_def ex_def ey_def)
  ultimately show ?thesis using px py by simp
qed

lemma refitInv_box:
  assumes inv: "refitInv width height S r" and ne: "hasContent r"
  shows "rMinX r \<le> rMaxX r \<and> rMaxX r < width \<and> rMinY r \<le> rMaxY r \<and> rMaxY r < height"
proof -
  have "S \<noteq> {}" using inv ne unfolding refitInv_def by blast
  then obtain p where p: "p \<in> S" by auto
  have b: "\<forall>p \<in> S. fst p < width \<and> snd p < height \<and>
          rMinX r \<le> fst p \<and> fst p \<le> rMaxX r \<and> rMinY r \<le> snd p \<and> snd p \<le> rMaxY r"
    using inv unfolding refitInv_def by blast
  have a2: "rMaxX r = 0 \<or> rMaxX r \<in> fst ` S" using inv unfolding refitInv_def by blast
  have a4: "rMaxY r = 0 \<or> rMaxY r \<in> snd ` S" using inv unfolding refitInv_def by blast
  have "rMaxX r < width" using a2 b p by force
  moreover have "rMaxY r < height" using a4 b p by force
  moreover have "rMinX r \<le> rMaxX r" "rMinY r \<le> rMaxY r" using b p by force+
  ultimately show ?thesis by simp
qed

subsection \<open>Flood fill and raster scan\<close>

text \<open>
  The queue of a flood fill is distinct and holds pixels of the image only, so it never
  grows beyond \<open>width * height\<close> entries; the read position moves by one in every
  iteration, which bounds the number of iterations (\<open>bfsLoop_closed\<close>). The scan then
  keeps \<open>scanInv\<close> from pixel to pixel and from row to row.
\<close>

lemma divmod_index:
  fixes width :: nat
  assumes "b < width"
  shows "(a * width + b) div width = a" and "(a * width + b) mod width = b"
  using assms by simp_all

lemma truthy_update: "truthy (v[i := Suc 0]) j \<longleftrightarrow> (j = i \<and> i < length v) \<or> truthy v j"
  by (cases "j = i") (auto simp: truthy_def)

lemma neighbor_index:
  assumes "0 \<le> nx" "nx < int width" "0 \<le> ny" "ny < int height"
  shows "nat (ny * int width + nx) < width * height"
proof -
  obtain a where a: "nx = int a" using assms(1) by (metis nonneg_int_cases)
  obtain b where b: "ny = int b" using assms(3) by (metis nonneg_int_cases)
  have "nat (ny * int width + nx) = b * width + a"
    unfolding a b by (metis nat_int of_nat_add of_nat_mult)
  moreover have "b * width + a < width * height"
    using assms(2,4) unfolding a b by (intro index_lt) simp_all
  ultimately show ?thesis by simp
qed

lemma visitNeighbor_inv:
  assumes "vqInv (width * height) dilatedMap v0 seed v q"
  shows "vqInv (width * height) dilatedMap v0 seed
           (fst (visitNeighbor width height dilatedMap n (v, q)))
           (snd (visitNeighbor width height dilatedMap n (v, q))) \<and>
         (\<exists>ext. snd (visitNeighbor width height dilatedMap n (v, q)) = q @ ext)"
proof -
  obtain nx ny where n: "n = (nx, ny)" by (cases n)
  let ?i = "nat (ny * int width + nx)"
  show ?thesis
  proof (cases "0 \<le> nx \<and> nx < int width \<and> 0 \<le> ny \<and> ny < int height \<and>
                \<not> truthy v ?i \<and> eqAt dilatedMap ?i 1")
    case False
    then have "visitNeighbor width height dilatedMap n (v, q) = (v, q)"
      by (auto simp: visitNeighbor_def n Let_def)
    then show ?thesis using assms by simp
  next
    case True
    then have r: "visitNeighbor width height dilatedMap n (v, q) = (v[?i := 1], q @ [?i])"
      by (simp add: visitNeighbor_def n Let_def)
    have lt: "?i < width * height" using True by (intro neighbor_index) simp_all
    have len: "length v = width * height" using assms by (simp add: vqInv_def)
    have vis: "\<forall>i. truthy v i \<longleftrightarrow> truthy v0 i \<or> i \<in> set q" using assms by (simp add: vqInv_def)
    have notin: "?i \<notin> set q" "\<not> truthy v0 ?i" using True vis by auto
    have q: "\<forall>i \<in> set q. i < width * height \<and> \<not> truthy v0 i \<and> (i = seed \<or> eqAt dilatedMap i 1)"
      using assms by (simp add: vqInv_def)
    have "vqInv (width * height) dilatedMap v0 seed (v[?i := 1]) (q @ [?i])"
      unfolding vqInv_def
    proof (intro conjI)
      show "length (v[?i := 1]) = width * height" using len by simp
      show "distinct (q @ [?i])" using assms notin by (simp add: vqInv_def)
      show "\<forall>i. truthy (v[?i := 1]) i \<longleftrightarrow> truthy v0 i \<or> i \<in> set (q @ [?i])"
        using vis lt len by (auto simp: truthy_update)
      show "\<forall>i \<in> set (q @ [?i]). i < width * height \<and> \<not> truthy v0 i \<and> (i = seed \<or> eqAt dilatedMap i 1)"
        using q lt notin True by auto
    qed
    then show ?thesis unfolding r by simp
  qed
qed

lemma visitNeighbors_inv:
  assumes "vqInv (width * height) dilatedMap v0 seed v q"
  shows "vqInv (width * height) dilatedMap v0 seed
           (fst (fold (visitNeighbor width height dilatedMap) ns (v, q)))
           (snd (fold (visitNeighbor width height dilatedMap) ns (v, q))) \<and>
         (\<exists>ext. snd (fold (visitNeighbor width height dilatedMap) ns (v, q)) = q @ ext)"
  using assms
proof (induction ns arbitrary: v q)
  case Nil
  then show ?case by simp
next
  case (Cons n ns)
  obtain v1 q1 where s1: "visitNeighbor width height dilatedMap n (v, q) = (v1, q1)"
    by (cases "visitNeighbor width height dilatedMap n (v, q)")
  have 1: "vqInv (width * height) dilatedMap v0 seed v1 q1" and e1: "\<exists>ext. q1 = q @ ext"
    using visitNeighbor_inv[OF Cons.prems, of n] unfolding s1 by simp_all
  from Cons.IH[OF 1] e1 show ?case
    by (auto simp: s1)
qed

lemma bfsStart_inv:
  assumes "x < width" "y < height" "length v0 = width * height" "\<not> truthy v0 (y * width + x)"
  shows "bfsInv width height dilatedMap v0 x y (bfsStart width x y v0)"
proof -
  have lt: "y * width + x < width * height" using assms(1,2) by (rule index_lt)
  show ?thesis
    using assms lt
    by (auto simp: bfsInv_def bfsStart_def vqInv_def truthy_update)
qed

lemma bfsStep_inv:
  assumes inv: "bfsInv width height dilatedMap v0 x0 y0 s"
    and run: "bfs_head s < length (bfs_queue s)"
  shows "bfsInv width height dilatedMap v0 x0 y0 (bfsStep width height dilatedMap s) \<and>
         bfs_head (bfsStep width height dilatedMap s) = Suc (bfs_head s)"
proof -
  let ?q = "bfs_queue s" and ?h = "bfs_head s"
  let ?c = "?q ! ?h"
  let ?vq = "fold (visitNeighbor width height dilatedMap) (neighbors (?c mod width) (?c div width))
               (bfs_visited s, ?q)"
  have vq: "vqInv (width * height) dilatedMap v0 (y0 * width + x0) (bfs_visited s) ?q"
    using inv by (simp add: bfsInv_def)
  have vq': "vqInv (width * height) dilatedMap v0 (y0 * width + x0) (fst ?vq) (snd ?vq)"
    and "\<exists>ext. snd ?vq = ?q @ ext"
    using visitNeighbors_inv[OF vq] by auto
  then obtain ext where ext: "snd ?vq = ?q @ ext" by auto
  have cin: "?c \<in> set ?q" using run by simp
  then have clt: "?c < width * height" using vq by (auto simp: vqInv_def)
  then have w: "0 < width" by (cases width) auto
  have cx: "?c mod width < width" using w by simp
  have cy: "?c div width < height" using clt by (simp add: less_mult_imp_div_less mult.commute)
  have pix: "bfs_componentPixels s = take ?h ?q" using inv by (simp add: bfsInv_def)
  have take: "take ?h ?q @ [?c] = take (Suc ?h) (?q @ ext)"
    using run by (simp add: take_Suc_conv_app_nth)
  have qne: "?q \<noteq> []" using run by auto
  have step: "bfsStep width height dilatedMap s =
     \<lparr>bfs_queue = snd ?vq, bfs_head = ?h + 1, bfs_visited = fst ?vq,
      bfs_minX = (if ?c mod width < bfs_minX s then ?c mod width else bfs_minX s),
      bfs_maxX = (if ?c mod width > bfs_maxX s then ?c mod width else bfs_maxX s),
      bfs_minY = (if ?c div width < bfs_minY s then ?c div width else bfs_minY s),
      bfs_maxY = (if ?c div width > bfs_maxY s then ?c div width else bfs_maxY s),
      bfs_componentPixels = bfs_componentPixels s @ [?c]\<rparr>"
    by (simp add: bfsStep_def Let_def)
  have box: "bfs_minX s \<le> x0 \<and> x0 \<le> bfs_maxX s \<and> bfs_maxX s < width \<and>
      bfs_minY s \<le> y0 \<and> y0 \<le> bfs_maxY s \<and> bfs_maxY s < height \<and>
      (\<forall>i \<in> set (bfs_componentPixels s).
          bfs_minX s \<le> i mod width \<and> i mod width \<le> bfs_maxX s \<and>
          bfs_minY s \<le> i div width \<and> i div width \<le> bfs_maxY s)"
    using inv by (simp add: bfsInv_def)
  have hdq: "hd ?q = y0 * width + x0" using inv by (simp add: bfsInv_def)
  show ?thesis
    unfolding step bfsInv_def
    apply (simp only: bfs_state.simps)
    apply (intro conjI)
    subgoal using vq' by simp
    subgoal using run ext by simp
    subgoal using pix take ext by simp
    subgoal using ext qne by simp
    subgoal using ext qne hdq by simp
    subgoal using box by simp
    subgoal using box by simp
    subgoal using box cx by simp
    subgoal using box by simp
    subgoal using box by simp
    subgoal using box cy by simp
    subgoal using box by auto
    subgoal by simp
    done
qed

lemma vqInv_length_le:
  assumes "vqInv n dilatedMap v0 seed v q"
  shows "length q \<le> n"
proof -
  have "distinct q" "set q \<subseteq> {..<n}" using assms by (auto simp: vqInv_def)
  then have "card (set q) \<le> card {..<n}" by (intro card_mono) auto
  then show ?thesis using \<open>distinct q\<close> by (simp add: distinct_card)
qed

lemma visitNeighbor_length:
  "length (fst (visitNeighbor width height dilatedMap n (v, q))) = length v"
  by (cases n) (simp add: visitNeighbor_def Let_def)

lemma visitNeighbor_mono:
  "truthy v j \<Longrightarrow> truthy (fst (visitNeighbor width height dilatedMap n (v, q))) j"
  by (cases n) (auto simp: visitNeighbor_def Let_def truthy_update)

lemma visitNeighbor_marks:
  assumes "0 \<le> fst n" "fst n < int width" "0 \<le> snd n" "snd n < int height"
    and "eqAt dilatedMap (nat (snd n * int width + fst n)) 1" and "length v = width * height"
  shows "truthy (fst (visitNeighbor width height dilatedMap n (v, q))) (nat (snd n * int width + fst n))"
proof -
  have lt: "nat (snd n * int width + fst n) < length v"
    using neighbor_index[OF assms(1-4)] assms(6) by simp
  show ?thesis
    using assms lt by (cases n) (auto simp: visitNeighbor_def Let_def truthy_update)
qed

lemma visitNeighbors_length:
  "length (fst (fold (visitNeighbor width height dilatedMap) ns (v, q))) = length v"
proof (induction ns arbitrary: v q)
  case Nil
  then show ?case by simp
next
  case (Cons n ns)
  obtain v1 q1 where s1: "visitNeighbor width height dilatedMap n (v, q) = (v1, q1)"
    by (cases "visitNeighbor width height dilatedMap n (v, q)")
  have "length v1 = length v" using visitNeighbor_length[of width height dilatedMap n v q] s1 by simp
  then show ?case using Cons.IH[of v1 q1] by (simp add: s1)
qed

lemma visitNeighbors_mono:
  "truthy v j \<Longrightarrow> truthy (fst (fold (visitNeighbor width height dilatedMap) ns (v, q))) j"
proof (induction ns arbitrary: v q)
  case Nil
  then show ?case by simp
next
  case (Cons n ns)
  obtain v1 q1 where s1: "visitNeighbor width height dilatedMap n (v, q) = (v1, q1)"
    by (cases "visitNeighbor width height dilatedMap n (v, q)")
  have "truthy v1 j" using visitNeighbor_mono[OF Cons.prems, of width height dilatedMap n q] s1 by simp
  then show ?case using Cons.IH[of v1 q1] by (simp add: s1)
qed

lemma visitNeighbors_marks:
  assumes "n \<in> set ns" "0 \<le> fst n" "fst n < int width" "0 \<le> snd n" "snd n < int height"
    and "eqAt dilatedMap (nat (snd n * int width + fst n)) 1" and "length v = width * height"
  shows "truthy (fst (fold (visitNeighbor width height dilatedMap) ns (v, q))) (nat (snd n * int width + fst n))"
  using assms(1,7)
proof (induction ns arbitrary: v q)
  case Nil
  then show ?case by simp
next
  case (Cons m ns)
  obtain v1 q1 where s1: "visitNeighbor width height dilatedMap m (v, q) = (v1, q1)"
    by (cases "visitNeighbor width height dilatedMap m (v, q)")
  have len1: "length v1 = width * height"
    using visitNeighbor_length[of width height dilatedMap m v q] s1 Cons.prems(2) by simp
  show ?case
  proof (cases "n = m")
    case True
    have "truthy v1 (nat (snd n * int width + fst n))"
      using visitNeighbor_marks[OF assms(2-6) Cons.prems(2), of q] s1 True by simp
    then show ?thesis using visitNeighbors_mono[of v1 _ width height dilatedMap ns q1] by (simp add: s1)
  next
    case False
    then have "n \<in> set ns" using Cons.prems(1) by simp
    then show ?thesis using Cons.IH[OF _ len1, of q1] by (simp add: s1)
  qed
qed

lemma bfsStep_closed:
  assumes inv: "bfsInv width height dilatedMap v0 x0 y0 s"
    and cl: "closedInv width height dilatedMap s"
    and run: "bfs_head s < length (bfs_queue s)"
  shows "closedInv width height dilatedMap (bfsStep width height dilatedMap s)"
proof -
  let ?q = "bfs_queue s" and ?h = "bfs_head s"
  let ?c = "?q ! ?h"
  let ?ns = "neighbors (?c mod width) (?c div width)"
  let ?vq = "fold (visitNeighbor width height dilatedMap) ?ns (bfs_visited s, ?q)"
  have vq: "vqInv (width * height) dilatedMap v0 (y0 * width + x0) (bfs_visited s) ?q"
    using inv by (simp add: bfsInv_def)
  have len: "length (bfs_visited s) = width * height" using vq by (simp add: vqInv_def)
  obtain ext where ext: "snd ?vq = ?q @ ext" using visitNeighbors_inv[OF vq] by blast
  have step: "bfs_queue (bfsStep width height dilatedMap s) = snd ?vq"
    "bfs_head (bfsStep width height dilatedMap s) = Suc ?h"
    "bfs_visited (bfsStep width height dilatedMap s) = fst ?vq"
    by (simp_all add: bfsStep_def Let_def)
  have take: "take (Suc ?h) (snd ?vq) = take ?h ?q @ [?c]"
    using run ext by (simp add: take_Suc_conv_app_nth)
  show ?thesis
    unfolding closedInv_def step take
  proof (intro ballI allI impI)
    fix p q assume p: "p \<in> set (take ?h ?q @ [?c])"
      and a: "adj width height p q \<and> eqAt dilatedMap q 1"
    show "truthy (fst ?vq) q"
    proof (cases "p \<in> set (take ?h ?q)")
      case True
      then have "truthy (bfs_visited s) q" using cl a unfolding closedInv_def by blast
      then show ?thesis by (rule visitNeighbors_mono)
    next
      case False
      then have pc: "p = ?c" using p by simp
      obtain n where n: "n \<in> set ?ns" "0 \<le> fst n" "fst n < int width" "0 \<le> snd n"
          "snd n < int height" "q = nat (snd n * int width + fst n)"
        using a unfolding adj_def pc by blast
      have "eqAt dilatedMap (nat (snd n * int width + fst n)) 1" using a n(6) by simp
      from visitNeighbors_marks[OF n(1-5) this len] show ?thesis using n(6) by simp
    qed
  qed
qed

lemma visitNeighbor_reach:
  assumes "set q \<subseteq> S" "closedSet width height dilatedMap S" "c \<in> set q"
    and "n \<in> set (neighbors (c mod width) (c div width))"
  shows "set (snd (visitNeighbor width height dilatedMap n (v, q))) \<subseteq> S \<and>
         c \<in> set (snd (visitNeighbor width height dilatedMap n (v, q)))"
proof -
  obtain nx ny where n: "n = (nx, ny)" by (cases n)
  let ?i = "nat (ny * int width + nx)"
  show ?thesis
  proof (cases "0 \<le> nx \<and> nx < int width \<and> 0 \<le> ny \<and> ny < int height \<and>
                \<not> truthy v ?i \<and> eqAt dilatedMap ?i 1")
    case False
    then have "visitNeighbor width height dilatedMap n (v, q) = (v, q)"
      by (auto simp: visitNeighbor_def n Let_def)
    then show ?thesis using assms by simp
  next
    case True
    then have r: "visitNeighbor width height dilatedMap n (v, q) = (v[?i := 1], q @ [?i])"
      by (simp add: visitNeighbor_def n Let_def)
    have "adj width height c ?i"
      unfolding adj_def using assms(4) True n by (intro bexI[of _ n]) simp_all
    then have "?i \<in> S" using assms(1,2,3) True unfolding closedSet_def by blast
    then show ?thesis unfolding r using assms(1,3) by simp
  qed
qed

lemma visitNeighbors_reach:
  assumes "set q \<subseteq> S" "closedSet width height dilatedMap S" "c \<in> set q"
    and "set ns \<subseteq> set (neighbors (c mod width) (c div width))"
  shows "set (snd (fold (visitNeighbor width height dilatedMap) ns (v, q))) \<subseteq> S"
  using assms(1,3,4)
proof (induction ns arbitrary: v q)
  case Nil
  then show ?case by simp
next
  case (Cons n ns)
  obtain v1 q1 where s1: "visitNeighbor width height dilatedMap n (v, q) = (v1, q1)"
    by (cases "visitNeighbor width height dilatedMap n (v, q)")
  have n: "n \<in> set (neighbors (c mod width) (c div width))" using Cons.prems(3) by simp
  have 1: "set q1 \<subseteq> S" "c \<in> set q1"
    using visitNeighbor_reach[OF Cons.prems(1) assms(2) Cons.prems(2) n, of v] unfolding s1 by simp_all
  have "set ns \<subseteq> set (neighbors (c mod width) (c div width))" using Cons.prems(3) by simp
  from Cons.IH[OF 1 this] show ?case by (simp add: s1)
qed

lemma bfsStart_exact:
  assumes "x < width"
  shows "exactInv width height dilatedMap (bfsStart width x y v)"
  using divmod_index[OF assms, of y]
  by (simp add: exactInv_def bfsStart_def)

lemma bfsStep_exact:
  assumes inv: "bfsInv width height dilatedMap v0 x0 y0 s"
    and ex: "exactInv width height dilatedMap s"
    and run: "bfs_head s < length (bfs_queue s)"
  shows "exactInv width height dilatedMap (bfsStep width height dilatedMap s)"
proof -
  let ?q = "bfs_queue s" and ?h = "bfs_head s"
  let ?c = "?q ! ?h"
  let ?ns = "neighbors (?c mod width) (?c div width)"
  let ?vq = "fold (visitNeighbor width height dilatedMap) ?ns (bfs_visited s, ?q)"
  have vq: "vqInv (width * height) dilatedMap v0 (y0 * width + x0) (bfs_visited s) ?q"
    using inv by (simp add: bfsInv_def)
  obtain ext where ext: "snd ?vq = ?q @ ext" using visitNeighbors_inv[OF vq] by blast
  have cin: "?c \<in> set ?q" using run by simp
  have qne: "?q \<noteq> []" using run by auto
  have sub: "set ?q \<subseteq> set (snd ?vq)" using ext by simp
  have cin': "?c \<in> set (snd ?vq)" using cin sub by blast
  have step: "bfs_queue (bfsStep width height dilatedMap s) = snd ?vq"
    "bfs_minX (bfsStep width height dilatedMap s) = (if ?c mod width < bfs_minX s then ?c mod width else bfs_minX s)"
    "bfs_maxX (bfsStep width height dilatedMap s) = (if ?c mod width > bfs_maxX s then ?c mod width else bfs_maxX s)"
    "bfs_minY (bfsStep width height dilatedMap s) = (if ?c div width < bfs_minY s then ?c div width else bfs_minY s)"
    "bfs_maxY (bfsStep width height dilatedMap s) = (if ?c div width > bfs_maxY s then ?c div width else bfs_maxY s)"
    by (simp_all add: bfsStep_def Let_def)
  have old: "bfs_minX s \<in> (\<lambda>p. p mod width) ` set (snd ?vq)"
    "bfs_maxX s \<in> (\<lambda>p. p mod width) ` set (snd ?vq)"
    "bfs_minY s \<in> (\<lambda>p. p div width) ` set (snd ?vq)"
    "bfs_maxY s \<in> (\<lambda>p. p div width) ` set (snd ?vq)"
    using ex sub unfolding exactInv_def by blast+
  have new: "?c mod width \<in> (\<lambda>p. p mod width) ` set (snd ?vq)"
    "?c div width \<in> (\<lambda>p. p div width) ` set (snd ?vq)"
    using cin' by blast+
  have reach: "\<forall>S. hd (snd ?vq) \<in> S \<and> closedSet width height dilatedMap S \<longrightarrow> set (snd ?vq) \<subseteq> S"
  proof (intro allI impI)
    fix S assume S: "hd (snd ?vq) \<in> S \<and> closedSet width height dilatedMap S"
    then have "hd ?q \<in> S" using ext qne by simp
    then have qs: "set ?q \<subseteq> S" using ex S unfolding exactInv_def by blast
    have cs: "closedSet width height dilatedMap S" using S by simp
    show "set (snd ?vq) \<subseteq> S"
      by (rule visitNeighbors_reach[OF qs cs cin subset_refl])
  qed
  show ?thesis
    unfolding exactInv_def step using old new reach by simp
qed

lemma bfsStart_closed: "closedInv width height dilatedMap (bfsStart width x y v)"
  by (simp add: closedInv_def bfsStart_def)

lemma bfsLoop_closed:
  assumes "bfsInv width height dilatedMap v0 x0 y0 s" "closedInv width height dilatedMap s"
    and "exactInv width height dilatedMap s"
  shows "\<exists>t. bfsLoop width height dilatedMap s = Some t \<and>
             bfsInv width height dilatedMap v0 x0 y0 t \<and>
             closedInv width height dilatedMap t \<and>
             exactInv width height dilatedMap t \<and>
             bfs_head t = length (bfs_queue t)"
  using assms
proof (induction "width * height - bfs_head s" arbitrary: s rule: less_induct)
  case less
  show ?case
  proof (cases "bfs_head s < length (bfs_queue s)")
    case False
    then have "bfs_head s = length (bfs_queue s)" using less.prems by (simp add: bfsInv_def)
    moreover have "bfsLoop width height dilatedMap s = Some s"
      using False by (subst bfsLoop.simps) simp
    ultimately show ?thesis using less.prems by simp
  next
    case True
    let ?s' = "bfsStep width height dilatedMap s"
    have step: "bfsInv width height dilatedMap v0 x0 y0 ?s'" "bfs_head ?s' = Suc (bfs_head s)"
      using bfsStep_inv[OF less.prems(1) True] by simp_all
    have cl: "closedInv width height dilatedMap ?s'"
      using bfsStep_closed[OF less.prems(1,2) True] .
    have xc: "exactInv width height dilatedMap ?s'"
      using bfsStep_exact[OF less.prems(1,3) True] .
    have "length (bfs_queue s) \<le> width * height"
      using less.prems by (auto simp: bfsInv_def intro: vqInv_length_le)
    then have dec: "width * height - bfs_head ?s' < width * height - bfs_head s"
      using True step(2) by simp
    have "bfsLoop width height dilatedMap s = bfsLoop width height dilatedMap ?s'"
      using True by (subst bfsLoop.simps) simp
    then show ?thesis using less.hyps[OF dec step(1) cl xc] by simp
  qed
qed

lemma scanPixel_inv:
  assumes inv: "scanInv width height dilatedMap (y * width + x) v cs"
    and x: "x < width" and y: "y < height"
  shows "\<exists>v' cs'. scanPixel (\<lambda>s. [s]) width height dilatedMap y x (Some (v, cs)) = Some (v', cs') \<and>
           scanInv width height dilatedMap (Suc (y * width + x)) v' cs'"
proof (cases "truthy v (y * width + x) \<or> eqAt dilatedMap (y * width + x) 0")
  case True
  then have "scanPixel (\<lambda>s. [s]) width height dilatedMap y x (Some (v, cs)) = Some (v, cs)"
    by (simp add: scanPixel_def)
  moreover have "scanInv width height dilatedMap (Suc (y * width + x)) v cs"
  proof -
    have a: "\<forall>j < y * width + x. truthy v j \<or> eqAt dilatedMap j 0"
      using inv unfolding scanInv_def by blast
    have "\<forall>j < Suc (y * width + x). truthy v j \<or> eqAt dilatedMap j 0"
    proof (intro allI impI)
      fix j assume "j < Suc (y * width + x)"
      then have "j < y * width + x \<or> j = y * width + x" by auto
      then show "truthy v j \<or> eqAt dilatedMap j 0" using a True by blast
    qed
    moreover have "\<forall>c \<in> set cs. compOK width height dilatedMap c \<and>
        hd (bfs_componentPixels c) < Suc (y * width + x)"
    proof -
      have "\<forall>c \<in> set cs. compOK width height dilatedMap c \<and>
        hd (bfs_componentPixels c) < y * width + x"
        using inv unfolding scanInv_def by blast
      then show ?thesis by (auto simp: less_Suc_eq)
    qed
    ultimately show ?thesis using inv unfolding scanInv_def by blast
  qed
  ultimately show ?thesis by blast
next
  case False
  let ?i = "y * width + x"
  have len: "length v = width * height" using inv unfolding scanInv_def by blast
  have vis: "\<forall>j. truthy v j \<longleftrightarrow> (\<exists>c \<in> set cs. j \<in> set (bfs_componentPixels c))"
    using inv unfolding scanInv_def by blast
  have below: "\<forall>j < ?i. truthy v j \<or> eqAt dilatedMap j 0" using inv unfolding scanInv_def by blast
  have dis: "distinct (concat (map bfs_componentPixels cs))" using inv unfolding scanInv_def by blast
  have old: "\<forall>c \<in> set cs. compOK width height dilatedMap c \<and> hd (bfs_componentPixels c) < ?i"
    using inv unfolding scanInv_def by blast
  have srt: "sorted_wrt (<) (map (\<lambda>c. hd (bfs_componentPixels c)) cs)"
    using inv unfolding scanInv_def by blast
  have start: "bfsInv width height dilatedMap v x y (bfsStart width x y v)"
    using x y len False by (intro bfsStart_inv) simp_all
  have clo: "\<forall>k < length cs. \<forall>p \<in> set (bfs_componentPixels (cs ! k)). \<forall>q.
          adj width height p q \<and> eqAt dilatedMap q 1 \<longrightarrow>
          q \<in> set (concat (map bfs_componentPixels (take (Suc k) cs)))"
    using inv unfolding scanInv_def by blast
  obtain t where t: "bfsLoop width height dilatedMap (bfsStart width x y v) = Some t"
      "bfsInv width height dilatedMap v x y t" "bfs_head t = length (bfs_queue t)"
      "closedInv width height dilatedMap t" "exactInv width height dilatedMap t"
    using bfsLoop_closed[OF start bfsStart_closed bfsStart_exact[OF x]] by blast
  have oldx: "\<forall>c \<in> set cs. compExact width height dilatedMap c"
    using inv unfolding scanInv_def by blast
  have res: "scanPixel (\<lambda>s. [s]) width height dilatedMap y x (Some (v, cs)) = Some (bfs_visited t, cs @ [t])"
    using False t(1) by (simp add: scanPixel_def)
  have vq: "vqInv (width * height) dilatedMap v ?i (bfs_visited t) (bfs_queue t)"
    using t(2) by (simp add: bfsInv_def)
  have pix: "bfs_componentPixels t = bfs_queue t" using t(2,3) by (simp add: bfsInv_def)
  have qne: "bfs_queue t \<noteq> []" and hdq: "hd (bfs_queue t) = ?i" using t(2) by (simp_all add: bfsInv_def)
  have seed_in: "?i \<in> set (bfs_queue t)" using qne hdq by (metis hd_in_set)
  have q: "\<forall>p \<in> set (bfs_queue t). p < width * height \<and> \<not> truthy v p \<and> (p = ?i \<or> eqAt dilatedMap p 1)"
    using vq by (simp add: vqInv_def)
  have vis': "\<forall>j. truthy (bfs_visited t) j \<longleftrightarrow> truthy v j \<or> j \<in> set (bfs_queue t)"
    using vq by (simp add: vqInv_def)
  have ge: "\<forall>p \<in> set (bfs_queue t). ?i \<le> p"
  proof
    fix p assume p: "p \<in> set (bfs_queue t)"
    show "?i \<le> p"
    proof (rule ccontr)
      assume "\<not> ?i \<le> p"
      then have lt: "p < ?i" by simp
      then have "truthy v p \<or> eqAt dilatedMap p 0" using below by simp
      moreover have "\<not> truthy v p" "eqAt dilatedMap p 1" using q p lt by auto
      ultimately show False by (auto simp: eqAt_def)
    qed
  qed
  have nz: "\<forall>p \<in> set (bfs_queue t). \<not> eqAt dilatedMap p 0"
    using q False by (auto simp: eqAt_def)
  have box: "bfs_minX t \<le> x \<and> x \<le> bfs_maxX t \<and> bfs_maxX t < width \<and>
      bfs_minY t \<le> y \<and> y \<le> bfs_maxY t \<and> bfs_maxY t < height \<and>
      (\<forall>i \<in> set (bfs_componentPixels t).
          bfs_minX t \<le> i mod width \<and> i mod width \<le> bfs_maxX t \<and>
          bfs_minY t \<le> i div width \<and> i div width \<le> bfs_maxY t)"
    using t(2) by (simp add: bfsInv_def)
  have ok: "compOK width height dilatedMap t"
    unfolding compOK_def pix
    using qne vq q ge nz box hdq pix by (auto simp: vqInv_def)
  have disj: "set (concat (map bfs_componentPixels cs)) \<inter> set (bfs_queue t) = {}"
    using q vis by auto
  have "scanInv width height dilatedMap (Suc ?i) (bfs_visited t) (cs @ [t])"
    unfolding scanInv_def
  proof (intro conjI)
    show "length (bfs_visited t) = width * height" using vq by (simp add: vqInv_def)
    show "\<forall>j. truthy (bfs_visited t) j \<longleftrightarrow> (\<exists>c \<in> set (cs @ [t]). j \<in> set (bfs_componentPixels c))"
      using vis vis' pix by auto
    show "\<forall>j < Suc ?i. truthy (bfs_visited t) j \<or> eqAt dilatedMap j 0"
      using below vis' seed_in by (auto simp: less_Suc_eq)
    show "distinct (concat (map bfs_componentPixels (cs @ [t])))"
      using dis disj vq pix by (simp add: vqInv_def)
    show "\<forall>c \<in> set (cs @ [t]). compOK width height dilatedMap c \<and> hd (bfs_componentPixels c) < Suc ?i"
      using old ok pix hdq by auto
    show "sorted_wrt (<) (map (\<lambda>c. hd (bfs_componentPixels c)) (cs @ [t]))"
      using srt old pix hdq by (auto simp: sorted_wrt_append)
    show "\<forall>k < length (cs @ [t]). \<forall>p \<in> set (bfs_componentPixels ((cs @ [t]) ! k)). \<forall>q.
          adj width height p q \<and> eqAt dilatedMap q 1 \<longrightarrow>
          q \<in> set (concat (map bfs_componentPixels (take (Suc k) (cs @ [t]))))"
    proof (intro allI impI ballI)
      fix k p q
      assume k: "k < length (cs @ [t])" and p: "p \<in> set (bfs_componentPixels ((cs @ [t]) ! k))"
        and a: "adj width height p q \<and> eqAt dilatedMap q 1"
      show "q \<in> set (concat (map bfs_componentPixels (take (Suc k) (cs @ [t]))))"
      proof (cases "k < length cs")
        case True
        then have "q \<in> set (concat (map bfs_componentPixels (take (Suc k) cs)))"
          using clo p a by (simp add: nth_append)
        then show ?thesis using True by simp
      next
        case False
        then have kk: "k = length cs" using k by simp
        then have "p \<in> set (take (bfs_head t) (bfs_queue t))" using p pix t(3) by simp
        then have "truthy (bfs_visited t) q" using t(4) a unfolding closedInv_def by blast
        then have "truthy v q \<or> q \<in> set (bfs_queue t)" using vis' by simp
        then show ?thesis using vis pix kk by auto
      qed
    qed
    have "compExact width height dilatedMap t"
      using t(5) unfolding compExact_def exactInv_def pix by blast
    then show "\<forall>c \<in> set (cs @ [t]). compExact width height dilatedMap c"
      using oldx by simp
  qed
  then show ?thesis using res by blast
qed

lemma scanRow_inv:
  assumes "scanInv width height dilatedMap (y * width) v cs" "y < height" "n \<le> width"
  shows "\<exists>v' cs'. fold (scanPixel (\<lambda>s. [s]) width height dilatedMap y) [0..<n] (Some (v, cs)) = Some (v', cs') \<and>
           scanInv width height dilatedMap (y * width + n) v' cs'"
  using assms(3)
proof (induction n)
  case 0
  then show ?case using assms(1) by simp
next
  case (Suc n)
  then obtain v1 cs1 where 1:
    "fold (scanPixel (\<lambda>s. [s]) width height dilatedMap y) [0..<n] (Some (v, cs)) = Some (v1, cs1)"
    "scanInv width height dilatedMap (y * width + n) v1 cs1"
    by auto
  have "n < width" using Suc.prems by simp
  from scanPixel_inv[OF 1(2) this assms(2)] 1(1) show ?case by simp
qed

lemma scanRows_inv:
  assumes "m \<le> height"
  shows "\<exists>v' cs'. fold (\<lambda>y. fold (scanPixel (\<lambda>s. [s]) width height dilatedMap y) [0..<width]) [0..<m]
              (Some (replicate (width * height) 0, [])) = Some (v', cs') \<and>
           scanInv width height dilatedMap (m * width) v' cs'"
  using assms
proof (induction m)
  case 0
  show ?case by (simp add: scanInv_def truthy_def)
next
  case (Suc m)
  then obtain v1 cs1 where 1:
    "fold (\<lambda>y. fold (scanPixel (\<lambda>s. [s]) width height dilatedMap y) [0..<width]) [0..<m]
              (Some (replicate (width * height) 0, [])) = Some (v1, cs1)"
    "scanInv width height dilatedMap (m * width) v1 cs1"
    by auto
  have "m < height" using Suc.prems by simp
  from scanRow_inv[OF 1(2) this order_refl] 1(1) show ?case by (simp add: add.commute)
qed

lemma labelComponents_total:
  "\<exists>v cs. labelComponents width height dilatedMap = Some cs \<and>
          scanInv width height dilatedMap (height * width) v cs"
proof -
  obtain v cs where 1: "fold (\<lambda>y. fold (scanPixel (\<lambda>s. [s]) width height dilatedMap y) [0..<width]) [0..<height]
              (Some (replicate (width * height) 0, [])) = Some (v, cs)"
     "scanInv width height dilatedMap (height * width) v cs"
    using scanRows_inv[OF order_refl, where width = width and height = height and dilatedMap = dilatedMap]
    by blast
  have "labelComponents width height dilatedMap = Some cs"
    unfolding labelComponents_def scanImage_def 1(1) by simp
  then show ?thesis using 1(2) by blast
qed

text \<open>
  What the scan does with a finished component does not influence the labeling: the
  scan with \<open>emit\<close> returns what \<open>emit\<close> makes of the labeled components, in order.
\<close>

lemma scanPixel_emit:
  "scanPixel emit width height dilatedMap y x (emitAll emit st) =
   emitAll emit (scanPixel (\<lambda>s. [s]) width height dilatedMap y x st)"
  by (cases st) (auto simp: scanPixel_def emitAll_def split: option.splits)

lemma scanRow_emit:
  "fold (scanPixel emit width height dilatedMap y) xs (emitAll emit st) =
   emitAll emit (fold (scanPixel (\<lambda>s. [s]) width height dilatedMap y) xs st)"
  by (induction xs arbitrary: st) (simp_all add: scanPixel_emit)

lemma scanRows_emit:
  "fold (\<lambda>y. fold (scanPixel emit width height dilatedMap y) xs) ys (emitAll emit st) =
   emitAll emit (fold (\<lambda>y. fold (scanPixel (\<lambda>s. [s]) width height dilatedMap y) xs) ys st)"
  by (induction ys arbitrary: st) (simp_all add: scanRow_emit)

lemma scanImage_emit:
  "scanImage emit width height dilatedMap =
   map_option (\<lambda>cs. concat (map emit cs)) (labelComponents width height dilatedMap)"
proof -
  have "Some (replicate (width * height) 0, []) = emitAll emit (Some (replicate (width * height) 0, []))"
    by (simp add: emitAll_def)
  then have "scanImage emit width height dilatedMap =
    map_option snd (emitAll emit
      (fold (\<lambda>y. fold (scanPixel (\<lambda>s. [s]) width height dilatedMap y) [0..<width]) [0..<height]
         (Some (replicate (width * height) 0, []))))"
    unfolding scanImage_def by (metis scanRows_emit)
  then show ?thesis
    by (simp add: labelComponents_def scanImage_def emitAll_def option.map_comp comp_def split_def)
qed

lemma bex_four: "(\<exists>n \<in> set [a, b, c, d]. P n) \<longleftrightarrow> P a \<or> P b \<or> P c \<or> P d"
  by simp

text \<open>
  The neighbourhood in coordinates, its symmetry, and what follows for finished
  components: on a mask of zeros and ones a component contains every neighbour of value
  one of each of its pixels.
\<close>

lemma adj_iff:
  "adj width height p q \<longleftrightarrow>
     (p mod width + 1 < width \<and> p div width < height \<and> q = p div width * width + (p mod width + 1)) \<or>
     (1 \<le> p mod width \<and> p mod width - 1 < width \<and> p div width < height \<and>
        q = p div width * width + (p mod width - 1)) \<or>
     (p mod width < width \<and> p div width + 1 < height \<and> q = (p div width + 1) * width + p mod width) \<or>
     (p mod width < width \<and> 1 \<le> p div width \<and> p div width - 1 < height \<and>
        q = (p div width - 1) * width + p mod width)"
proof -
  define x where "x = p mod width"
  define y where "y = p div width"
  have r: "nat (int y * int width + (int x + 1)) = y * width + (x + 1)"
    by (metis nat_int of_nat_1 of_nat_add of_nat_mult)
  have l: "1 \<le> x \<Longrightarrow> nat (int y * int width + (int x - 1)) = y * width + (x - 1)"
    by (metis nat_int of_nat_1 of_nat_add of_nat_mult of_nat_diff)
  have d: "nat ((int y + 1) * int width + int x) = (y + 1) * width + x"
    by (metis nat_int of_nat_1 of_nat_add of_nat_mult)
  have u: "1 \<le> y \<Longrightarrow> nat ((int y - 1) * int width + int x) = (y - 1) * width + x"
    by (metis nat_int of_nat_1 of_nat_add of_nat_mult of_nat_diff)
  have R: "(0 \<le> int x + 1 \<and> int x + 1 < int width \<and> 0 \<le> int y \<and> int y < int height \<and>
            q = nat (int y * int width + (int x + 1))) \<longleftrightarrow>
           (x + 1 < width \<and> y < height \<and> q = y * width + (x + 1))"
    unfolding r by linarith
  have L: "(0 \<le> int x - 1 \<and> int x - 1 < int width \<and> 0 \<le> int y \<and> int y < int height \<and>
            q = nat (int y * int width + (int x - 1))) \<longleftrightarrow>
           (1 \<le> x \<and> x - 1 < width \<and> y < height \<and> q = y * width + (x - 1))"
  proof (cases "1 \<le> x")
    case True
    show ?thesis unfolding l[OF True] using True by linarith
  next
    case False
    then show ?thesis by linarith
  qed
  have D: "(0 \<le> int x \<and> int x < int width \<and> 0 \<le> int y + 1 \<and> int y + 1 < int height \<and>
            q = nat ((int y + 1) * int width + int x)) \<longleftrightarrow>
           (x < width \<and> y + 1 < height \<and> q = (y + 1) * width + x)"
    unfolding d by linarith
  have U: "(0 \<le> int x \<and> int x < int width \<and> 0 \<le> int y - 1 \<and> int y - 1 < int height \<and>
            q = nat ((int y - 1) * int width + int x)) \<longleftrightarrow>
           (x < width \<and> 1 \<le> y \<and> y - 1 < height \<and> q = (y - 1) * width + x)"
  proof (cases "1 \<le> y")
    case True
    show ?thesis unfolding u[OF True] using True by linarith
  next
    case False
    then show ?thesis by linarith
  qed
  have "adj width height p q \<longleftrightarrow>
     (0 \<le> int x + 1 \<and> int x + 1 < int width \<and> 0 \<le> int y \<and> int y < int height \<and>
            q = nat (int y * int width + (int x + 1))) \<or>
     (0 \<le> int x - 1 \<and> int x - 1 < int width \<and> 0 \<le> int y \<and> int y < int height \<and>
            q = nat (int y * int width + (int x - 1))) \<or>
     (0 \<le> int x \<and> int x < int width \<and> 0 \<le> int y + 1 \<and> int y + 1 < int height \<and>
            q = nat ((int y + 1) * int width + int x)) \<or>
     (0 \<le> int x \<and> int x < int width \<and> 0 \<le> int y - 1 \<and> int y - 1 < int height \<and>
            q = nat ((int y - 1) * int width + int x))"
    unfolding adj_def neighbors_def x_def[symmetric] y_def[symmetric] bex_four
    by (simp only: fst_conv snd_conv)
  then have "adj width height p q \<longleftrightarrow>
     (x + 1 < width \<and> y < height \<and> q = y * width + (x + 1)) \<or>
     (1 \<le> x \<and> x - 1 < width \<and> y < height \<and> q = y * width + (x - 1)) \<or>
     (x < width \<and> y + 1 < height \<and> q = (y + 1) * width + x) \<or>
     (x < width \<and> 1 \<le> y \<and> y - 1 < height \<and> q = (y - 1) * width + x)"
    unfolding R L D U .
  then show ?thesis unfolding x_def y_def .
qed

lemma adj_sym:
  assumes "adj width height p q" "p < width * height"
  shows "adj width height q p \<and> q < width * height"
proof -
  have w: "0 < width" using assms(2) by (cases width) auto
  define x where "x = p mod width"
  define y where "y = p div width"
  have p: "p = y * width + x" by (simp add: x_def y_def)
  have xw: "x < width" using w by (simp add: x_def)
  have yh: "y < height" using assms(2) by (simp add: y_def less_mult_imp_div_less mult.commute)
  consider (r) "x + 1 < width" "q = y * width + (x + 1)"
    | (l) "1 \<le> x" "q = y * width + (x - 1)"
    | (d) "y + 1 < height" "q = (y + 1) * width + x"
    | (u) "1 \<le> y" "q = (y - 1) * width + x"
    using assms(1) unfolding adj_iff x_def y_def by blast
  then show ?thesis
  proof cases
    case r
    have m: "q mod width = x + 1" "q div width = y"
      unfolding r(2) by (rule divmod_index(2)[OF r(1)], rule divmod_index(1)[OF r(1)])
    have "q < width * height" unfolding r(2) using r(1) yh by (intro index_lt)
    moreover have "adj width height q p"
      unfolding adj_iff m using p xw yh by simp
    ultimately show ?thesis by simp
  next
    case l
    have lt: "x - 1 < width" using xw by simp
    have m: "q mod width = x - 1" "q div width = y"
      unfolding l(2) by (rule divmod_index(2)[OF lt], rule divmod_index(1)[OF lt])
    have "q < width * height" unfolding l(2) using lt yh by (intro index_lt)
    moreover have "adj width height q p"
      unfolding adj_iff m using p xw yh l(1) by simp
    ultimately show ?thesis by simp
  next
    case d
    have m: "q mod width = x" "q div width = y + 1"
      unfolding d(2) by (rule divmod_index(2)[OF xw], rule divmod_index(1)[OF xw])
    have "q < width * height" unfolding d(2) using xw d(1) by (intro index_lt)
    moreover have "adj width height q p"
      unfolding adj_iff m using p xw yh d(1) by simp
    ultimately show ?thesis by simp
  next
    case u
    have lt: "y - 1 < height" using yh by simp
    have m: "q mod width = x" "q div width = y - 1"
      unfolding u(2) by (rule divmod_index(2)[OF xw], rule divmod_index(1)[OF xw])
    have "q < width * height" unfolding u(2) using xw lt by (intro index_lt)
    moreover have "adj width height q p"
      unfolding adj_iff m using p xw yh u(1) lt by simp
    ultimately show ?thesis by simp
  qed
qed

lemma in_concat_take:
  "x \<in> set (concat (map f (take n cs))) \<longleftrightarrow> (\<exists>k < length cs. k < n \<and> x \<in> set (f (cs ! k)))"
proof -
  have "x \<in> set (concat (map f (take n cs))) \<longleftrightarrow> (\<exists>c \<in> set (take n cs). x \<in> set (f c))"
    by auto
  also have "\<dots> \<longleftrightarrow> (\<exists>k < length (take n cs). x \<in> set (f (take n cs ! k)))"
    by (metis in_set_conv_nth)
  also have "\<dots> \<longleftrightarrow> (\<exists>k < length cs. k < n \<and> x \<in> set (f (cs ! k)))"
    by auto
  finally show ?thesis .
qed

lemma distinct_concat_disjoint:
  "distinct (concat xss) \<Longrightarrow> i < j \<Longrightarrow> j < length xss \<Longrightarrow> set (xss ! i) \<inter> set (xss ! j) = {}"
proof (induction xss arbitrary: i j)
  case Nil
  then show ?case by simp
next
  case (Cons xs xss)
  obtain j' where j: "j = Suc j'" using Cons.prems(2) by (cases j) auto
  show ?case
  proof (cases i)
    case 0
    have "xss ! j' \<in> set xss" using Cons.prems(3) j by simp
    then have "set (xss ! j') \<subseteq> set (concat xss)" by auto
    then show ?thesis using Cons.prems(1) 0 j by auto
  next
    case (Suc i')
    then show ?thesis using Cons.IH[of i' j'] Cons.prems j by simp
  qed
qed

lemma scanInv_unique:
  assumes inv: "scanInv width height dilatedMap i v cs"
    and "k < length cs" "k' < length cs"
    and "p \<in> set (bfs_componentPixels (cs ! k))" "p \<in> set (bfs_componentPixels (cs ! k'))"
  shows "k = k'"
proof (rule ccontr)
  assume ne: "k \<noteq> k'"
  have dis: "distinct (concat (map bfs_componentPixels cs))"
    using inv unfolding scanInv_def by blast
  have d: "\<And>a b. a < b \<Longrightarrow> b < length cs \<Longrightarrow>
      set (bfs_componentPixels (cs ! a)) \<inter> set (bfs_componentPixels (cs ! b)) = {}"
  proof -
    fix a b assume ab: "a < b" "b < length cs"
    have "set (map bfs_componentPixels cs ! a) \<inter> set (map bfs_componentPixels cs ! b) = {}"
      using dis ab by (intro distinct_concat_disjoint) simp_all
    then show "set (bfs_componentPixels (cs ! a)) \<inter> set (bfs_componentPixels (cs ! b)) = {}"
      using ab by simp
  qed
  have "k < k' \<or> k' < k" using ne by auto
  then show False using d[of k k'] d[of k' k] assms(2-5) by auto
qed

lemma components_closed:
  assumes inv: "scanInv width height dilatedMap i v cs"
    and bin: "\<forall>p < width * height. \<not> eqAt dilatedMap p 0 \<longrightarrow> eqAt dilatedMap p 1"
    and k: "k < length cs" and p: "p \<in> set (bfs_componentPixels (cs ! k))"
    and a: "adj width height p q" and q: "eqAt dilatedMap q 1"
  shows "q \<in> set (bfs_componentPixels (cs ! k))"
proof -
  have clo: "\<forall>k < length cs. \<forall>p \<in> set (bfs_componentPixels (cs ! k)). \<forall>q.
          adj width height p q \<and> eqAt dilatedMap q 1 \<longrightarrow>
          q \<in> set (concat (map bfs_componentPixels (take (Suc k) cs)))"
    using inv unfolding scanInv_def by blast
  have ok: "\<forall>c \<in> set cs. compOK width height dilatedMap c"
    using inv unfolding scanInv_def by blast
  have "q \<in> set (concat (map bfs_componentPixels (take (Suc k) cs)))"
    using clo k p a q by blast
  then obtain k' where k': "k' < length cs" "k' < Suc k" "q \<in> set (bfs_componentPixels (cs ! k'))"
    unfolding in_concat_take by blast
  have pk: "compOK width height dilatedMap (cs ! k)" using ok k by simp
  have plt: "p < width * height" and pnz: "\<not> eqAt dilatedMap p 0"
    using pk p unfolding compOK_def by blast+
  have p1: "eqAt dilatedMap p 1" using bin plt pnz by blast
  have sym: "adj width height q p" using adj_sym[OF a plt] by simp
  have "p \<in> set (concat (map bfs_componentPixels (take (Suc k') cs)))"
    using clo k'(1,3) sym p1 by blast
  then obtain k'' where k'': "k'' < length cs" "k'' < Suc k'" "p \<in> set (bfs_componentPixels (cs ! k''))"
    unfolding in_concat_take by blast
  have "k'' = k" using scanInv_unique[OF inv k''(1) k k''(3) p] .
  then have "k' = k" using k'(2) k''(2) by simp
  then show ?thesis using k'(3) by simp
qed

lemma full_grid_component:
  assumes inv: "scanInv width height dilatedMap (height * width) v cs"
    and w: "0 < width" and h: "0 < height"
    and ones: "\<forall>p < width * height. eqAt dilatedMap p 1"
  shows "\<exists>c. cs = [c] \<and> bfs_minX c = 0 \<and> bfs_maxX c = width - 1 \<and>
             bfs_minY c = 0 \<and> bfs_maxY c = height - 1 \<and>
             length (bfs_componentPixels c) = width * height"
proof -
  have bin: "\<forall>p < width * height. \<not> eqAt dilatedMap p 0 \<longrightarrow> eqAt dilatedMap p 1"
    using ones by blast
  have ok: "\<forall>c \<in> set cs. compOK width height dilatedMap c"
    using inv unfolding scanInv_def by blast
  have vis: "\<forall>j. truthy v j \<longleftrightarrow> (\<exists>c \<in> set cs. j \<in> set (bfs_componentPixels c))"
    using inv unfolding scanInv_def by blast
  have below: "\<forall>j < height * width. truthy v j \<or> eqAt dilatedMap j 0"
    using inv unfolding scanInv_def by blast
  have n: "0 < height * width" using w h by simp
  have "\<not> eqAt dilatedMap 0 0" using ones n by (auto simp: eqAt_def mult.commute)
  then have "truthy v 0" using below n by blast
  then obtain c0 where "c0 \<in> set cs" "0 \<in> set (bfs_componentPixels c0)" using vis by blast
  then obtain k where k: "k < length cs" "0 \<in> set (bfs_componentPixels (cs ! k))"
    by (metis in_set_conv_nth)
  have all: "p < width * height \<Longrightarrow> p \<in> set (bfs_componentPixels (cs ! k))" for p
  proof (induction p rule: less_induct)
    case (less p)
    show ?case
    proof (cases "p = 0")
      case True
      then show ?thesis using k by simp
    next
      case False
      have p1: "eqAt dilatedMap p 1" using ones less.prems by blast
      show ?thesis
      proof (cases "p mod width = 0")
        case m0: False
        let ?p' = "p - 1"
        have lt: "?p' < p" using False by simp
        have in': "?p' \<in> set (bfs_componentPixels (cs ! k))"
          using less.IH[OF lt] less.prems by simp
        have md: "?p' mod width = p mod width - 1" "?p' div width = p div width"
        proof -
          have e: "?p' = p div width * width + (p mod width - 1)"
          proof -
            have "p = p div width * width + p mod width" by simp
            then show ?thesis using m0 by linarith
          qed
          have b: "p mod width - 1 < width" using w by (simp add: less_imp_diff_less)
          show "?p' mod width = p mod width - 1"
            by (subst e) (rule divmod_index(2)[OF b])
          show "?p' div width = p div width"
            by (subst e) (rule divmod_index(1)[OF b])
        qed
        have yh: "p div width < height"
          using less.prems by (simp add: less_mult_imp_div_less mult.commute)
        have "adj width height ?p' p"
          unfolding adj_iff md using m0 w yh by (intro disjI1) simp
        then show ?thesis using components_closed[OF inv bin k(1) in' _ p1] by simp
      next
        case m0: True
        let ?p' = "p - width"
        have ge: "width \<le> p"
        proof (rule ccontr)
          assume "\<not> width \<le> p"
          then have "p mod width = p" by simp
          then show False using m0 False by simp
        qed
        have lt: "?p' < p" using w ge by simp
        have in': "?p' \<in> set (bfs_componentPixels (cs ! k))"
          using less.IH[OF lt] less.prems by simp
        have y1: "1 \<le> p div width" using ge w by (simp add: div_greater_zero_iff Suc_leI)
        have e: "?p' = (p div width - 1) * width + 0"
        proof -
          have "p = p div width * width" using m0 by (metis add.right_neutral div_mult_mod_eq)
          then have "p - width = p div width * width - 1 * width" by simp
          then show ?thesis by (simp add: diff_mult_distrib)
        qed
        have md: "?p' mod width = 0" "?p' div width = p div width - 1"
        proof -
          show "?p' mod width = 0" by (subst e) (rule divmod_index(2)[OF w])
          show "?p' div width = p div width - 1" by (subst e) (rule divmod_index(1)[OF w])
        qed
        have yh: "p div width < height"
          using less.prems by (simp add: less_mult_imp_div_less mult.commute)
        have pe: "p = (p div width - 1 + 1) * width + 0"
          using y1 m0 by (metis add.right_neutral div_mult_mod_eq le_add_diff_inverse2)
        have "adj width height ?p' p"
          unfolding adj_iff md using w yh y1 pe by (intro disjI2 disjI1) simp
        then show ?thesis using components_closed[OF inv bin k(1) in' _ p1] by simp
      qed
    qed
  qed
  have one: "k' < length cs \<Longrightarrow> k' = k" for k'
  proof -
    assume k': "k' < length cs"
    then have c: "compOK width height dilatedMap (cs ! k')" using ok by simp
    then have ne: "bfs_componentPixels (cs ! k') \<noteq> []" unfolding compOK_def by blast
    then obtain p where p: "p \<in> set (bfs_componentPixels (cs ! k'))"
      by (meson hd_in_set)
    then have "p < width * height" using c unfolding compOK_def by blast
    then have "p \<in> set (bfs_componentPixels (cs ! k))" by (rule all)
    then show "k' = k" using scanInv_unique[OF inv k' k(1) p] by simp
  qed
  have len1: "length cs = 1"
  proof -
    have pos: "0 < length cs" using k(1) by linarith
    have k0: "k = 0" using one[OF pos] by simp
    have "\<not> 1 < length cs"
    proof
      assume "1 < length cs"
      then have "1 = k" by (rule one)
      then show False using k0 by simp
    qed
    then show ?thesis using pos by linarith
  qed
  then obtain c where c: "cs = [c]" by (cases cs) auto
  then have k0: "cs ! k = c" using k(1) by simp
  have cok: "compOK width height dilatedMap c" using ok c by simp
  have set_eq: "set (bfs_componentPixels c) = {..<width * height}"
  proof
    show "set (bfs_componentPixels c) \<subseteq> {..<width * height}"
      using cok unfolding compOK_def by auto
    show "{..<width * height} \<subseteq> set (bfs_componentPixels c)"
      using all k0 by auto
  qed
  have "distinct (bfs_componentPixels c)" using cok unfolding compOK_def by blast
  then have len: "length (bfs_componentPixels c) = width * height"
    using set_eq by (metis card_lessThan distinct_card)
  have box: "\<forall>p \<in> set (bfs_componentPixels c).
          bfs_minX c \<le> p mod width \<and> p mod width \<le> bfs_maxX c \<and>
          bfs_minY c \<le> p div width \<and> p div width \<le> bfs_maxY c"
    and up: "bfs_maxX c < width" "bfs_maxY c < height"
    using cok unfolding compOK_def by blast+
  have "0 \<in> set (bfs_componentPixels c)" using set_eq n by (simp add: mult.commute)
  then have lo: "bfs_minX c = 0" "bfs_minY c = 0" using box by fastforce+
  let ?l = "(height - 1) * width + (width - 1)"
  have wl: "width - 1 < width" using w by simp
  have "?l < width * height" using w h by (intro index_lt) simp_all
  then have "?l \<in> set (bfs_componentPixels c)" using set_eq by simp
  then have "?l mod width \<le> bfs_maxX c" "?l div width \<le> bfs_maxY c" using box by blast+
  then have "width - 1 \<le> bfs_maxX c" "height - 1 \<le> bfs_maxY c"
    unfolding divmod_index[OF wl] by simp_all
  then have hi: "bfs_maxX c = width - 1" "bfs_maxY c = height - 1" using up by simp_all
  show ?thesis using c lo hi len by simp
qed

lemma raster_order:
  fixes width :: nat
  assumes "x1 < width" "x2 < width"
  shows "y1 * width + x1 < y2 * width + x2 \<longleftrightarrow> y1 < y2 \<or> (y1 = y2 \<and> x1 < x2)"
proof (cases "y1 < y2")
  case True
  then have "Suc y1 \<le> y2" by simp
  then have "Suc y1 * width \<le> y2 * width" by (rule mult_le_mono1)
  then show ?thesis using True assms by simp
next
  case False
  show ?thesis
  proof (cases "y1 = y2")
    case True
    then show ?thesis by simp
  next
    case ne: False
    then have "Suc y2 \<le> y1" using False by simp
    then have "Suc y2 * width \<le> y1 * width" by (rule mult_le_mono1)
    then show ?thesis using False ne assms by simp
  qed
qed

text \<open>
  A component stays inside every closed set that holds its first pixel. On an image one
  pixel wide this pins down the component of a run of ones between two zeros.
\<close>

lemma component_least:
  assumes inv: "scanInv width height dilatedMap i v cs" and k: "k < length cs"
    and S: "hd (bfs_componentPixels (cs ! k)) \<in> S" "closedSet width height dilatedMap S"
  shows "set (bfs_componentPixels (cs ! k)) \<subseteq> S"
proof -
  have "compExact width height dilatedMap (cs ! k)"
    using inv k unfolding scanInv_def by simp
  then show ?thesis using S unfolding compExact_def by blast
qed

lemma component_closedSet:
  assumes inv: "scanInv width height dilatedMap i v cs"
    and bin: "\<forall>p < width * height. \<not> eqAt dilatedMap p 0 \<longrightarrow> eqAt dilatedMap p 1"
    and k: "k < length cs"
  shows "closedSet width height dilatedMap (set (bfs_componentPixels (cs ! k)))"
  unfolding closedSet_def using components_closed[OF inv bin k] by blast

lemma adj_strip:
  "adj 1 height p q \<longleftrightarrow> (p + 1 < height \<and> q = p + 1) \<or> (1 \<le> p \<and> p - 1 < height \<and> q = p - 1)"
  unfolding adj_iff by auto

lemma strip_run:
  assumes inv: "scanInv 1 height dilatedMap (height * 1) v cs"
    and bin: "\<forall>p < 1 * height. \<not> eqAt dilatedMap p 0 \<longrightarrow> eqAt dilatedMap p 1"
    and ab: "a \<le> b" "b < height"
    and run: "\<forall>p. a \<le> p \<and> p \<le> b \<longrightarrow> eqAt dilatedMap p 1"
    and lo: "a = 0 \<or> \<not> eqAt dilatedMap (a - 1) 1"
    and hi: "b + 1 = height \<or> \<not> eqAt dilatedMap (b + 1) 1"
  shows "\<exists>k < length cs. set (bfs_componentPixels (cs ! k)) = {a..b} \<and>
           hd (bfs_componentPixels (cs ! k)) = a \<and>
           length (bfs_componentPixels (cs ! k)) = b - a + 1 \<and>
           bfs_minX (cs ! k) = 0 \<and> bfs_maxX (cs ! k) = 0 \<and>
           bfs_minY (cs ! k) = a \<and> bfs_maxY (cs ! k) = b"
proof -
  have vis: "\<forall>j. truthy v j \<longleftrightarrow> (\<exists>c \<in> set cs. j \<in> set (bfs_componentPixels c))"
    using inv unfolding scanInv_def by blast
  have below: "\<forall>j < height * 1. truthy v j \<or> eqAt dilatedMap j 0"
    using inv unfolding scanInv_def by blast
  have a1: "eqAt dilatedMap a 1" using run ab by simp
  then have "\<not> eqAt dilatedMap a 0" by (auto simp: eqAt_def)
  moreover have "a < height * 1" using ab by simp
  ultimately have "truthy v a" using below by blast
  then obtain c0 where "c0 \<in> set cs" "a \<in> set (bfs_componentPixels c0)" using vis by blast
  then obtain k where k: "k < length cs" "a \<in> set (bfs_componentPixels (cs ! k))"
    by (metis in_set_conv_nth)
  let ?P = "set (bfs_componentPixels (cs ! k))"
  have ok: "compOK 1 height dilatedMap (cs ! k)"
    using inv k(1) unfolding scanInv_def by simp
  have xk: "compExact 1 height dilatedMap (cs ! k)"
    using inv k(1) unfolding scanInv_def by simp
  have up: "a + n \<le> b \<Longrightarrow> a + n \<in> ?P" for n
  proof (induction n)
    case 0
    then show ?case using k(2) by simp
  next
    case (Suc n)
    then have in': "a + n \<in> ?P" by simp
    have "adj 1 height (a + n) (a + Suc n)"
      unfolding adj_strip using Suc.prems ab by simp
    moreover have "eqAt dilatedMap (a + Suc n) 1" using run Suc.prems by simp
    ultimately show ?case using components_closed[OF inv bin k(1) in'] by blast
  qed
  have sup: "{a..b} \<subseteq> ?P"
  proof
    fix p assume "p \<in> {a..b}"
    then have "a + (p - a) \<le> b" "a + (p - a) = p" by simp_all
    then show "p \<in> ?P" using up[of "p - a"] by simp
  qed
  have cl: "closedSet 1 height dilatedMap {a..b}"
    unfolding closedSet_def adj_strip
  proof (intro ballI allI impI)
    fix p q assume p: "p \<in> {a..b}"
      and h: "(p + 1 < height \<and> q = p + 1 \<or> 1 \<le> p \<and> p - 1 < height \<and> q = p - 1) \<and> eqAt dilatedMap q 1"
    show "q \<in> {a..b}"
    proof (cases "q = p + 1")
      case True
      have "p \<noteq> b"
      proof
        assume "p = b"
        then have "eqAt dilatedMap (b + 1) 1" "b + 1 < height" using h True by auto
        then show False using hi by simp
      qed
      then show ?thesis using p True by simp
    next
      case False
      then have q: "1 \<le> p" "q = p - 1" using h by auto
      have "p \<noteq> a"
      proof
        assume "p = a"
        then have "eqAt dilatedMap (a - 1) 1" "a \<noteq> 0" using h q by auto
        then show False using lo by simp
      qed
      then show ?thesis using p q by auto
    qed
  qed
  let ?h = "hd (bfs_componentPixels (cs ! k))"
  have ne: "bfs_componentPixels (cs ! k) \<noteq> []" using ok unfolding compOK_def by blast
  then have hin: "?h \<in> ?P" by simp
  have hle: "?h \<le> a" using ok k(2) unfolding compOK_def by blast
  have h1: "eqAt dilatedMap ?h 1"
  proof -
    have "?h < 1 * height" "\<not> eqAt dilatedMap ?h 0" using ok hin unfolding compOK_def by blast+
    then show ?thesis using bin by blast
  qed
  have ha: "?h = a"
  proof (rule ccontr)
    assume "?h \<noteq> a"
    then have lt: "?h < a" using hle by simp
    then have na: "\<not> eqAt dilatedMap (a - 1) 1" using lo by auto
    then have "?h \<noteq> a - 1" using h1 by auto
    then have hS: "?h \<in> {p. p + 1 < a}" using lt by auto
    have "closedSet 1 height dilatedMap {p. p + 1 < a}"
      unfolding closedSet_def adj_strip
    proof (intro ballI allI impI)
      fix p q assume p: "p \<in> {p. p + 1 < a}"
        and h: "(p + 1 < height \<and> q = p + 1 \<or> 1 \<le> p \<and> p - 1 < height \<and> q = p - 1) \<and> eqAt dilatedMap q 1"
      have "q \<noteq> a - 1" using h na by auto
      then show "q \<in> {p. p + 1 < a}" using p h by auto
    qed
    then have "?P \<subseteq> {p. p + 1 < a}" using component_least[OF inv k(1) hS] by simp
    then show False using k(2) by auto
  qed
  have sub: "?P \<subseteq> {a..b}"
    using component_least[OF inv k(1) _ cl] ha ab by simp
  have eq: "?P = {a..b}" using sub sup by blast
  have "distinct (bfs_componentPixels (cs ! k))" using ok unfolding compOK_def by blast
  then have "length (bfs_componentPixels (cs ! k)) = card {a..b}"
    using eq by (metis distinct_card)
  then have len: "length (bfs_componentPixels (cs ! k)) = b - a + 1" using ab by simp
  have mx: "bfs_minX (cs ! k) = 0" "bfs_maxX (cs ! k) = 0"
    using xk unfolding compExact_def by auto
  have cov: "\<forall>p \<in> ?P. bfs_minY (cs ! k) \<le> p div 1 \<and> p div 1 \<le> bfs_maxY (cs ! k)"
    using ok unfolding compOK_def by blast
  have att: "bfs_minY (cs ! k) \<in> ?P" "bfs_maxY (cs ! k) \<in> ?P"
    using xk unfolding compExact_def by auto
  have "a \<in> ?P" "b \<in> ?P" using eq ab by simp_all
  then have "bfs_minY (cs ! k) \<le> a" "b \<le> bfs_maxY (cs ! k)" using cov by fastforce+
  then have my: "bfs_minY (cs ! k) = a" "bfs_maxY (cs ! k) = b" using att eq by auto
  show ?thesis using k(1) eq ha len mx my by blast
qed

subsection \<open>Bounding boxes of components and emitted regions\<close>

lemma labeled_component_bbox:
  assumes "labelComponents width height dilatedMap = Some cs" "c \<in> set cs"
  shows "bfs_minX c \<le> bfs_maxX c \<and> bfs_maxX c < width \<and>
         bfs_minY c \<le> bfs_maxY c \<and> bfs_maxY c < height"
proof -
  obtain v cs' where cs': "labelComponents width height dilatedMap = Some cs'"
    and inv: "scanInv width height dilatedMap (height * width) v cs'"
    using labelComponents_total by blast
  have "scanInv width height dilatedMap (height * width) v cs" using assms(1) cs' inv by simp
  then have "compOK width height dilatedMap c" using assms(2) unfolding scanInv_def by blast
  then show ?thesis unfolding compOK_def by blast
qed

lemma paddedBox_parity:
  assumes "rMinX r \<le> rMaxX r" "rMaxX r < width" "rMinY r \<le> rMaxY r" "rMaxY r < height"
  shows "(even (maxX (paddedBox width height r) - minX (paddedBox width height r) + 1) \<or>
          (minX (paddedBox width height r) = 0 \<and> maxX (paddedBox width height r) = int width - 1 \<and> odd width)) \<and>
         (even (maxY (paddedBox width height r) - minY (paddedBox width height r) + 1) \<or>
          (minY (paddedBox width height r) = 0 \<and> maxY (paddedBox width height r) = int height - 1 \<and> odd height))"
proof -
  let ?lx = "max 0 (int (rMinX r) - int PADDING)" and ?hx = "min (int width - 1) (int (rMaxX r) + int PADDING)"
  let ?ly = "max 0 (int (rMinY r) - int PADDING)" and ?hy = "min (int height - 1) (int (rMaxY r) + int PADDING)"
  have x: "0 \<le> ?lx" "?lx \<le> ?hx" "?hx < int width"
    using assms by (auto simp: PADDING_def)
  have y: "0 \<le> ?ly" "?ly \<le> ?hy" "?hy < int height"
    using assms by (auto simp: PADDING_def)
  define ex where "ex = ensureEven width ?lx ?hx"
  define ey where "ey = ensureEven height ?ly ?hy"
  have px: "even (snd ex - fst ex + 1) \<or> (fst ex = 0 \<and> snd ex = int width - 1 \<and> odd width)"
    unfolding ex_def by (rule ensureEven_parity[OF x])
  have py: "even (snd ey - fst ey + 1) \<or> (fst ey = 0 \<and> snd ey = int height - 1 \<and> odd height)"
    unfolding ey_def by (rule ensureEven_parity[OF y])
  have "paddedBox width height r =
      \<lparr>minX = fst ex, minY = fst ey, maxX = snd ex, maxY = snd ey, pixels = []\<rparr>"
    by (simp add: paddedBox_def Let_def ex_def ey_def)
  then show ?thesis using px py by simp
qed

lemma emitted_region_bounds_parity:
  assumes "segmentRegions width height data = Some objects" "b \<in> set objects"
  shows "0 \<le> minX b \<and> minX b \<le> maxX b \<and> maxX b < int width \<and>
         0 \<le> minY b \<and> minY b \<le> maxY b \<and> maxY b < int height \<and>
         (even (maxX b - minX b + 1) \<or> (minX b = 0 \<and> maxX b = int width - 1 \<and> odd width)) \<and>
         (even (maxY b - minY b + 1) \<or> (minY b = 0 \<and> maxY b = int height - 1 \<and> odd height))"
proof -
  let ?D = "dilate width height (buildBinaryMap width height data)"
  obtain cs where cs: "labelComponents width height ?D = Some cs"
    and ob: "objects = concat (map (processComponent width height data) cs)"
    using assms(1) unfolding segmentRegions_def scanImage_emit by auto
  obtain c where c: "c \<in> set cs" "b \<in> set (processComponent width height data c)"
    using assms(2) ob by auto
  have bb: "bfs_maxX c < width" "bfs_maxY c < height"
    using labeled_component_bbox[OF cs c(1)] by simp_all
  let ?r = "tightRefit width height data c"
  have inv: "refitInv width height (contentPixels width data c) ?r"
    using bb by (rule tightRefit_inv)
  have b: "hasContent ?r" "b = paddedBox width height ?r"
    using c(2) by (auto simp: processComponent_def refineComponent_def Let_def split: if_splits)
  have box: "rMinX ?r \<le> rMaxX ?r \<and> rMaxX ?r < width \<and> rMinY ?r \<le> rMaxY ?r \<and> rMaxY ?r < height"
    using refitInv_box[OF inv b(1)] .
  have p1: "0 \<le> minX b \<and> minX b \<le> int (rMinX ?r) \<and> int (rMaxX ?r) \<le> maxX b \<and> maxX b < int width \<and>
         0 \<le> minY b \<and> minY b \<le> int (rMinY ?r) \<and> int (rMaxY ?r) \<le> maxY b \<and> maxY b < int height"
    unfolding b(2) using box by (intro paddedBox_props) simp_all
  have p2: "(even (maxX b - minX b + 1) \<or> (minX b = 0 \<and> maxX b = int width - 1 \<and> odd width)) \<and>
         (even (maxY b - minY b + 1) \<or> (minY b = 0 \<and> maxY b = int height - 1 \<and> odd height))"
    unfolding b(2) using box by (intro paddedBox_parity) simp_all
  have "minX b \<le> maxX b" "minY b \<le> maxY b" using p1 box by linarith+
  then show ?thesis using p1 p2 by blast
qed

lemma dilate_binary:
  "\<forall>p < width * height. \<not> eqAt (dilate width height binaryMap) p 0 \<longrightarrow>
      eqAt (dilate width height binaryMap) p 1"
proof (intro allI impI)
  fix p assume p: "p < width * height" and n: "\<not> eqAt (dilate width height binaryMap) p 0"
  show "eqAt (dilate width height binaryMap) p 1"
  proof (cases "truthy (dilate width height binaryMap) p")
    case True
    then show ?thesis using dilate_nth[OF p, of binaryMap] p by (simp add: eqAt_def dilate_length)
  next
    case False
    then show ?thesis using dilate_nth[OF p, of binaryMap] p n by (simp add: eqAt_def dilate_length)
  qed
qed

lemma labeled_components_connected:
  assumes "labelComponents width height dilatedMap = Some cs"
    and "\<forall>p < width * height. \<not> eqAt dilatedMap p 0 \<longrightarrow> eqAt dilatedMap p 1"
    and "k < length cs"
  shows "closedSet width height dilatedMap (set (bfs_componentPixels (cs ! k))) \<and>
         (\<forall>S. hd (bfs_componentPixels (cs ! k)) \<in> S \<and> closedSet width height dilatedMap S \<longrightarrow>
              set (bfs_componentPixels (cs ! k)) \<subseteq> S)"
proof -
  obtain v cs' where cs': "labelComponents width height dilatedMap = Some cs'"
    and inv': "scanInv width height dilatedMap (height * width) v cs'"
    using labelComponents_total by blast
  have inv: "scanInv width height dilatedMap (height * width) v cs"
    using assms(1) cs' inv' by simp
  show ?thesis
    using component_closedSet[OF inv assms(2,3)] component_least[OF inv assms(3)] by blast
qed

subsection \<open>Extraction\<close>

text \<open>
  \<open>Promise.all\<close> is fulfilled only if every member is, and rejected as soon as one is
  rejected; a fulfilled extraction determines every field of its record.
\<close>

lemma promiseAll_Inr:
  "promiseAll ps = Inr vs \<Longrightarrow> ps = map Inr vs"
proof (induction ps arbitrary: vs)
  case Nil
  then show ?case by simp
next
  case (Cons a ps)
  then show ?case
    by (cases a) (auto split: sum.splits)
qed

lemma promiseAll_Inl:
  "i < length ps \<Longrightarrow> ps ! i = Inl e \<Longrightarrow> \<exists>e'. promiseAll ps = Inl e'"
proof (induction ps arbitrary: i)
  case Nil
  then show ?case by simp
next
  case (Cons a ps)
  show ?case
  proof (cases a)
    case (Inl x)
    then show ?thesis by simp
  next
    case (Inr v)
    then obtain i' where i': "i = Suc i'" using Cons.prems by (cases i) auto
    then obtain e' where "promiseAll ps = Inl e'" using Cons.IH[of i'] Cons.prems by auto
    then show ?thesis using Inr by simp
  qed
qed

lemma extractObjects_Inr:
  assumes "extractObjects p imageBitmap sourceId objects = Inr results"
  shows "length results = length objects \<and>
         (\<forall>i < length objects. extractObject p imageBitmap sourceId (i, objects ! i) = Inr (results ! i))"
proof -
  have eq: "map (extractObject p imageBitmap sourceId) (enumerate 0 objects) = map Inr results"
    using assms unfolding extractObjects_def by (rule promiseAll_Inr)
  then have "length (map (extractObject p imageBitmap sourceId) (enumerate 0 objects)) = length (map Inr results :: (failure + SegmentedObject) list)"
    by simp
  then have len: "length results = length objects" by simp
  have "\<forall>i < length objects. extractObject p imageBitmap sourceId (i, objects ! i) = Inr (results ! i)"
  proof (intro allI impI)
    fix i assume i: "i < length objects"
    have "map (extractObject p imageBitmap sourceId) (enumerate 0 objects) ! i = map Inr results ! i"
      using eq by simp
    then show "extractObject p imageBitmap sourceId (i, objects ! i) = Inr (results ! i)"
      using i len by (simp add: nth_enumerate_eq)
  qed
  then show ?thesis using len by simp
qed

lemma extractObject_Inr:
  assumes "extractObject p imageBitmap sourceId (i, obj) = Inr r"
  shows "so_id r = ''obj-'' @ sourceId @ ''-'' @ showNat i @ ''-'' @ showNat (dateNow p i) \<and>
         so_sourceId r = sourceId \<and>
         so_width r = maxX obj - minX obj + 1 \<and> so_height r = maxY obj - minY obj + 1 \<and>
         so_x r = minX obj \<and> so_y r = minY obj \<and>
         (\<exists>blob. convertToBlob p i (objectRaster imageBitmap obj) = Some blob \<and>
                 so_url r = createObjectURL p i blob)"
  using assms by (auto simp: extractObject_def Let_def split: if_splits option.splits)

lemma drawImage_crop: "drawImage w h b x y w h 0 0 = cropBitmap b x y w h"
proof -
  have "\<And>j. j \<in> set [0..<nat h] \<Longrightarrow>
      map (\<lambda>i. if 0 \<le> int i \<and> int i < 0 + w \<and> 0 \<le> int j \<and> int j < 0 + h
               then pixelAt b (x + int i - 0) (y + int j - 0) else [0, 0, 0, 0]) [0..<nat w]
    = map (\<lambda>i. pixelAt b (x + int i) (y + int j)) [0..<nat w]"
    by (intro map_cong) auto
  then show ?thesis
    unfolding drawImage_def cropBitmap_def
    by (intro arg_cong[where f = concat] map_cong) simp_all
qed

lemma segmentImageTry_Inr:
  assumes "segmentImageTry p imageBitmap sourceId = Some (Inr results)"
  shows "\<exists>objects. segmentRegions (bm_width imageBitmap) (bm_height imageBitmap) (bm_data imageBitmap) = Some objects \<and>
           extractObjects p imageBitmap sourceId objects = Inr results"
  using assms by (auto simp: segmentImageTry_def split: if_splits)

subsection \<open>A bitmap whose single object spans the whole width\<close>

text \<open>
  One opaque pixel within 15 pixels of every border dilates to the whole image, and an
  image that is foreground everywhere has a single component, which covers it.
\<close>

lemma marked_binaryMap:
  "marked (replicate (width * height) 0) {i. i < width * height \<and> alphaAbove data i}
     (buildBinaryMap width height data)"
proof -
  have step: "\<And>i m. marked m (if alphaAbove data i then {i} else {})
                 (if alphaAbove data i then m[i := 1] else m)"
  proof -
    fix i m
    show "marked m (if alphaAbove data i then {i} else {})
                 (if alphaAbove data i then m[i := 1] else m)"
      by (cases "alphaAbove data i") (simp_all only: if_True if_False marked_refl marked_update)
  qed
  have "marked (replicate (width * height) 0)
      (\<Union>i \<in> set [0..<width * height]. if alphaAbove data i then {i} else {})
      (buildBinaryMap width height data)"
    unfolding buildBinaryMap_def by (rule marked_fold) (rule step)
  moreover have "(\<Union>i \<in> set [0..<width * height]. if alphaAbove data i then {i} else {})
      = {i. i < width * height \<and> alphaAbove data i}"
    by (auto split: if_splits)
  ultimately show ?thesis by simp
qed

lemma binaryMap_pixel:
  "i < width * height \<Longrightarrow> truthy (buildBinaryMap width height data) i \<longleftrightarrow> alphaAbove data i"
  using marked_zero_nth(2)[OF marked_binaryMap, of i width height data] by simp

lemma dilate_all_ones:
  assumes "x0 < width" "y0 < height" "alphaAbove data (y0 * width + x0)"
    and "width \<le> x0 + 16" "x0 \<le> 15" "height \<le> y0 + 16" "y0 \<le> 15"
  shows "\<forall>p < width * height. eqAt (dilate width height (buildBinaryMap width height data)) p 1"
proof (intro allI impI)
  fix p assume p: "p < width * height"
  let ?D = "dilate width height (buildBinaryMap width height data)"
  have w: "0 < width" using assms(1) by simp
  have x: "p mod width < width" using w by simp
  have y: "p div width < height" using p by (simp add: less_mult_imp_div_less mult.commute)
  have idx: "p div width * width + p mod width = p" by simp
  have src: "truthy (buildBinaryMap width height data) (y0 * width + x0)"
    using binaryMap_pixel[OF index_lt[OF assms(1,2)]] assms(3) by simp
  have "chebyshevNear kernelSize (p mod width) x0" "chebyshevNear kernelSize (p div width) y0"
    using x y assms(4-7) by (simp_all add: chebyshevNear_def kernelSize_def)
  then have "truthy ?D (p div width * width + p mod width)"
    unfolding dilate_pixel[OF x y] using src assms(1,2) by blast
  then have t: "truthy ?D p" by (simp only: idx)
  have "?D ! p = 1" using dilate_nth[OF p, of "buildBinaryMap width height data"] t by simp
  then show "eqAt ?D p 1" using p by (simp add: eqAt_def dilate_length)
qed

lemma exampleData_alpha: "alphaAbove exampleData i \<longleftrightarrow> i = 112"
proof (cases "i = 112")
  case True
  then show ?thesis
    by (simp add: alphaAbove_def exampleData_def ALPHA_THRESHOLD_def nth_append)
next
  case False
  then show ?thesis
    by (auto simp: alphaAbove_def exampleData_def ALPHA_THRESHOLD_def nth_append nth_Cons')
qed

lemma example_regions:
  "segmentRegions 15 14 exampleData = Some [\<lparr>minX = 0, minY = 0, maxX = 14, maxY = 13, pixels = []\<rparr>]"
proof -
  let ?D = "dilate 15 14 (buildBinaryMap 15 14 exampleData)"
  have a: "alphaAbove exampleData (7 * 15 + 7)" by (simp add: exampleData_alpha)
  have ones: "\<forall>p < 15 * 14. eqAt ?D p 1"
    by (rule dilate_all_ones[OF _ _ a]) simp_all
  obtain v cs where cs: "labelComponents 15 14 ?D = Some cs"
    and inv: "scanInv 15 14 ?D (14 * 15) v cs"
    using labelComponents_total by blast
  obtain c where c: "cs = [c]" "bfs_minX c = 0" "bfs_maxX c = 15 - 1" "bfs_minY c = 0"
      "bfs_maxY c = 14 - 1" "length (bfs_componentPixels c) = 15 * 14"
    using full_grid_component[OF inv _ _ ones] by auto
  have noise: "passesNoiseFilter c" using c(6) by (simp add: passesNoiseFilter_def Let_def)
  let ?r = "tightRefit 15 14 exampleData c"
  have rinv: "refitInv 15 14 (contentPixels 15 exampleData c) ?r"
    using c by (intro tightRefit_inv) simp_all
  have content: "contentPixels 15 exampleData c = {(7, 7)}"
  proof -
    have "\<And>x y. x \<le> 14 \<Longrightarrow> y * 15 + x = 112 \<longleftrightarrow> x = 7 \<and> y = (7::nat)"
    proof -
      fix x y :: nat assume x: "x \<le> 14"
      show "y * 15 + x = 112 \<longleftrightarrow> x = 7 \<and> y = 7"
        using x by presburger
    qed
    then show ?thesis
      using c by (auto simp: contentPixels_def exampleData_alpha)
  qed
  have hc: "hasContent ?r" using rinv content unfolding refitInv_def by simp
  have mm: "rMinX ?r = 7 \<and> rMaxX ?r = 7 \<and> rMinY ?r = 7 \<and> rMaxY ?r = 7"
    using refitInv_Min_Max[OF rinv contentPixels_finite] content by simp
  have pb: "paddedBox 15 14 ?r = \<lparr>minX = 0, minY = 0, maxX = 14, maxY = 13, pixels = []\<rparr>"
    using mm by (simp add: paddedBox_def Let_def PADDING_def ensureEven_def)
  have "processComponent 15 14 exampleData c = [\<lparr>minX = 0, minY = 0, maxX = 14, maxY = 13, pixels = []\<rparr>]"
    using noise hc pb by (simp add: processComponent_def refineComponent_def Let_def)
  then show ?thesis
    unfolding segmentRegions_def scanImage_emit cs c(1) by simp
qed

subsection \<open>A bitmap with two objects\<close>

lemma stripRows_lt: "y \<in> set stripRows \<Longrightarrow> y < 403"
  by (auto simp: stripRows_def)

lemma rgba_length: "length (concat (map (\<lambda>i. [r, g, b, a i]) [0..<n])) = 4 * n"
  by (induction n) simp_all

lemma rgba_alpha_nth:
  "i < n \<Longrightarrow> concat (map (\<lambda>i. [r, g, b, a i]) [0..<n]) ! (i * 4 + 3) = a i"
proof (induction n)
  case 0
  then show ?case by simp
next
  case (Suc n)
  show ?case
  proof (cases "i < n")
    case True
    then have "i * 4 + 3 < 4 * n" by simp
    then show ?thesis using Suc.IH[OF True] by (simp add: nth_append rgba_length)
  next
    case False
    then have "i = n" using Suc.prems by simp
    then show ?thesis by (simp add: nth_append rgba_length)
  qed
qed

lemma stripData_length: "length stripData = 4 * 403"
  unfolding stripData_def by (rule rgba_length)

lemma stripData_alpha: "alphaAbove stripData i \<longleftrightarrow> i \<in> set stripRows"
proof (cases "i < 403")
  case True
  have "stripData ! (i * 4 + 3) = (if i \<in> set stripRows then 255 else 0)"
    unfolding stripData_def by (rule rgba_alpha_nth[OF True])
  moreover have "i * 4 + 3 < length stripData"
    using True by (simp add: stripData_length)
  ultimately show ?thesis by (simp add: alphaAbove_def ALPHA_THRESHOLD_def)
next
  case False
  then have "\<not> i * 4 + 3 < length stripData" by (simp add: stripData_length)
  moreover have "i \<notin> set stripRows" using False stripRows_lt by blast
  ultimately show ?thesis by (simp add: alphaAbove_def)
qed

lemma strip_near_iff:
  assumes "p < 403"
  shows "(\<exists>y' \<in> set stripRows. p \<le> y' + 15 \<and> y' \<le> p + 15) \<longleftrightarrow> p \<noteq> 201"
proof
  assume "\<exists>y' \<in> set stripRows. p \<le> y' + 15 \<and> y' \<le> p + 15"
  then obtain y' where "y' \<in> set stripRows" "p \<le> y' + 15" "y' \<le> p + 15" by blast
  then show "p \<noteq> 201" by (auto simp: stripRows_def)
next
  assume ne: "p \<noteq> 201"
  have near: "y \<in> set stripRows \<Longrightarrow> p \<le> y + 15 \<Longrightarrow> y \<le> p + 15 \<Longrightarrow>
      \<exists>y' \<in> set stripRows. p \<le> y' + 15 \<and> y' \<le> p + 15" for y
    by blast
  have "\<exists>y' \<in> set stripRows. p \<le> y' + 15 \<and> y' \<le> p + 15"
  proof -
    show ?thesis
    proof (cases "p \<le> 30")
      case True
      then show ?thesis using ne by (intro near[of 15]) (simp_all add: stripRows_def)
    next
      case c0: False
      show ?thesis
      proof (cases "p \<le> 61")
        case True
        then show ?thesis using c0 ne by (intro near[of 46]) (simp_all add: stripRows_def)
      next
        case c1: False
        show ?thesis
        proof (cases "p \<le> 92")
          case True
          then show ?thesis using c1 ne by (intro near[of 77]) (simp_all add: stripRows_def)
        next
          case c2: False
          show ?thesis
          proof (cases "p \<le> 123")
            case True
            then show ?thesis using c2 ne by (intro near[of 108]) (simp_all add: stripRows_def)
          next
            case c3: False
            show ?thesis
            proof (cases "p \<le> 154")
              case True
              then show ?thesis using c3 ne by (intro near[of 139]) (simp_all add: stripRows_def)
            next
              case c4: False
              show ?thesis
              proof (cases "p \<le> 185")
                case True
                then show ?thesis using c4 ne by (intro near[of 170]) (simp_all add: stripRows_def)
              next
                case c5: False
                show ?thesis
                proof (cases "p \<le> 200")
                  case True
                  then show ?thesis using c5 ne by (intro near[of 185]) (simp_all add: stripRows_def)
                next
                  case c6: False
                  show ?thesis
                  proof (cases "p \<le> 232")
                    case True
                    then show ?thesis using c6 ne by (intro near[of 217]) (simp_all add: stripRows_def)
                  next
                    case c7: False
                    show ?thesis
                    proof (cases "p \<le> 263")
                      case True
                      then show ?thesis using c7 ne by (intro near[of 248]) (simp_all add: stripRows_def)
                    next
                      case c8: False
                      show ?thesis
                      proof (cases "p \<le> 294")
                        case True
                        then show ?thesis using c8 ne by (intro near[of 279]) (simp_all add: stripRows_def)
                      next
                        case c9: False
                        show ?thesis
                        proof (cases "p \<le> 325")
                          case True
                          then show ?thesis using c9 ne by (intro near[of 310]) (simp_all add: stripRows_def)
                        next
                          case c10: False
                          show ?thesis
                          proof (cases "p \<le> 356")
                            case True
                            then show ?thesis using c10 ne by (intro near[of 341]) (simp_all add: stripRows_def)
                          next
                            case c11: False
                            show ?thesis
                            proof (cases "p \<le> 387")
                              case True
                              then show ?thesis using c11 ne by (intro near[of 372]) (simp_all add: stripRows_def)
                            next
                              case c12: False
                              show ?thesis using c12 ne assms by (intro near[of 387]) (simp_all add: stripRows_def)
                            qed
                          qed
                        qed
                      qed
                    qed
                  qed
                qed
              qed
            qed
          qed
        qed
      qed
    qed
  qed
  then show "\<exists>y' \<in> set stripRows. p \<le> y' + 15 \<and> y' \<le> p + 15" .
qed

lemma strip_truthy:
  assumes "p < 403"
  shows "truthy (dilate 1 403 (buildBinaryMap 1 403 stripData)) p \<longleftrightarrow> p \<noteq> 201"
proof -
  have bm: "truthy (buildBinaryMap 1 403 stripData) y' \<longleftrightarrow> y' \<in> set stripRows" if "y' < 403" for y'
    using binaryMap_pixel[of y' 1 403 stripData] that by (simp add: stripData_alpha)
  have "truthy (dilate 1 403 (buildBinaryMap 1 403 stripData)) (p * 1 + 0) \<longleftrightarrow>
     (\<exists>y' < 403. \<exists>x' < 1. truthy (buildBinaryMap 1 403 stripData) (y' * 1 + x') \<and>
         chebyshevNear kernelSize 0 x' \<and> chebyshevNear kernelSize p y')"
    by (rule dilate_pixel) (use assms in simp_all)
  also have "\<dots> \<longleftrightarrow> (\<exists>y' < 403. truthy (buildBinaryMap 1 403 stripData) y' \<and> chebyshevNear kernelSize p y')"
    by (simp add: chebyshevNear_def)
  also have "\<dots> \<longleftrightarrow> (\<exists>y' < 403. y' \<in> set stripRows \<and> p \<le> y' + 15 \<and> y' \<le> p + 15)"
    using bm by (auto simp: chebyshevNear_def kernelSize_def)
  also have "\<dots> \<longleftrightarrow> (\<exists>y' \<in> set stripRows. p \<le> y' + 15 \<and> y' \<le> p + 15)"
    using stripRows_lt by blast
  also have "\<dots> \<longleftrightarrow> p \<noteq> 201"
    by (rule strip_near_iff[OF assms])
  finally show ?thesis by simp
qed

lemma strip_eqAt:
  assumes "p < 403"
  shows "eqAt (dilate 1 403 (buildBinaryMap 1 403 stripData)) p 1 \<longleftrightarrow> p \<noteq> 201"
    and "eqAt (dilate 1 403 (buildBinaryMap 1 403 stripData)) p 0 \<longleftrightarrow> p = 201"
proof -
  let ?D = "dilate 1 403 (buildBinaryMap 1 403 stripData)"
  have p: "p < 1 * 403" using assms by simp
  have n: "?D ! p = (if truthy ?D p then 1 else 0)" by (rule dilate_nth[OF p])
  have l: "p < length ?D" using assms by (simp add: dilate_length)
  show "eqAt ?D p 1 \<longleftrightarrow> p \<noteq> 201"
    using n l strip_truthy[OF assms] by (simp add: eqAt_def)
  show "eqAt ?D p 0 \<longleftrightarrow> p = 201"
    using n l strip_truthy[OF assms] by (simp add: eqAt_def)
qed

lemma strip_components:
  "\<exists>c1 c2. labelComponents 1 403 (dilate 1 403 (buildBinaryMap 1 403 stripData)) = Some [c1, c2] \<and>
     length (bfs_componentPixels c1) = 201 \<and>
     bfs_minX c1 = 0 \<and> bfs_maxX c1 = 0 \<and> bfs_minY c1 = 0 \<and> bfs_maxY c1 = 200 \<and>
     length (bfs_componentPixels c2) = 201 \<and>
     bfs_minX c2 = 0 \<and> bfs_maxX c2 = 0 \<and> bfs_minY c2 = 202 \<and> bfs_maxY c2 = 402"
proof -
  let ?D = "dilate 1 403 (buildBinaryMap 1 403 stripData)"
  obtain v cs where cs: "labelComponents 1 403 ?D = Some cs"
    and inv: "scanInv 1 403 ?D (403 * 1) v cs"
    using labelComponents_total by blast
  have bin: "\<forall>p < 1 * 403. \<not> eqAt ?D p 0 \<longrightarrow> eqAt ?D p 1"
    using strip_eqAt by simp
  have gap1: "\<not> eqAt ?D 201 1" using strip_eqAt(1)[of 201] by simp
  have r1: "\<forall>p. 0 \<le> p \<and> p \<le> 200 \<longrightarrow> eqAt ?D p 1"
    using strip_eqAt(1) by simp
  have r2: "\<forall>p. 202 \<le> p \<and> p \<le> 402 \<longrightarrow> eqAt ?D p 1"
    using strip_eqAt(1) by simp
  obtain k1 where k1: "k1 < length cs" "set (bfs_componentPixels (cs ! k1)) = {0..200}"
      "hd (bfs_componentPixels (cs ! k1)) = 0"
      "length (bfs_componentPixels (cs ! k1)) = 200 - 0 + 1"
      "bfs_minX (cs ! k1) = 0" "bfs_maxX (cs ! k1) = 0"
      "bfs_minY (cs ! k1) = 0" "bfs_maxY (cs ! k1) = 200"
    using strip_run[OF inv bin _ _ r1, of ] gap1 by auto
  obtain k2 where k2: "k2 < length cs" "set (bfs_componentPixels (cs ! k2)) = {202..402}"
      "hd (bfs_componentPixels (cs ! k2)) = 202"
      "length (bfs_componentPixels (cs ! k2)) = 402 - 202 + 1"
      "bfs_minX (cs ! k2) = 0" "bfs_maxX (cs ! k2) = 0"
      "bfs_minY (cs ! k2) = 202" "bfs_maxY (cs ! k2) = 402"
    using strip_run[OF inv bin _ _ r2] gap1 by auto
  have srt: "sorted_wrt (<) (map (\<lambda>c. hd (bfs_componentPixels c)) cs)"
    using inv unfolding scanInv_def by blast
  have ok: "\<forall>c \<in> set cs. compOK 1 403 ?D c"
    using inv unfolding scanInv_def by blast
  have only: "k = k1 \<or> k = k2" if k: "k < length cs" for k
  proof -
    have c: "compOK 1 403 ?D (cs ! k)" using ok k by simp
    then have "bfs_componentPixels (cs ! k) \<noteq> []" unfolding compOK_def by blast
    then obtain p where p: "p \<in> set (bfs_componentPixels (cs ! k))" by (meson hd_in_set)
    then have "p < 1 * 403" "\<not> eqAt ?D p 0" using c unfolding compOK_def by blast+
    then have "p < 403" "p \<noteq> 201" using strip_eqAt(2)[of p] by simp_all
    then have "p \<in> {0..200} \<or> p \<in> {202..402}" by auto
    then show ?thesis
    proof
      assume "p \<in> {0..200}"
      then have "p \<in> set (bfs_componentPixels (cs ! k1))" using k1(2) by simp
      then show ?thesis using scanInv_unique[OF inv k k1(1) p] by simp
    next
      assume "p \<in> {202..402}"
      then have "p \<in> set (bfs_componentPixels (cs ! k2))" using k2(2) by simp
      then show ?thesis using scanInv_unique[OF inv k k2(1) p] by simp
    qed
  qed
  have lt: "k1 < k2"
  proof (rule ccontr)
    assume "\<not> k1 < k2"
    then have "k2 = k1 \<or> k2 < k1" by auto
    then show False
    proof
      assume "k2 = k1"
      then show False using k1(3) k2(3) by simp
    next
      assume l: "k2 < k1"
      have "map (\<lambda>c. hd (bfs_componentPixels c)) cs ! k2 < map (\<lambda>c. hd (bfs_componentPixels c)) cs ! k1"
        using srt l k1(1) by (intro sorted_wrt_nth_less) simp_all
      then show False using k1(1,3) k2(1,3) by simp
    qed
  qed
  have pos: "0 < length cs" using k1(1) by linarith
  have z1: "k1 = 0" using only[OF pos] lt by auto
  have one: "1 < length cs" using lt k2(1) by linarith
  have z2: "k2 = 1" using only[OF one] z1 by auto
  have "\<not> 2 < length cs"
  proof
    assume "2 < length cs"
    then have "2 = k1 \<or> 2 = k2" by (rule only)
    then show False using z1 z2 by simp
  qed
  then have len: "length cs = 2" using one by linarith
  then obtain c1 c2 where c: "cs = [c1, c2]"
    by (cases cs; cases "tl cs"; cases "tl (tl cs)") auto
  have e1: "cs ! k1 = c1" and e2: "cs ! k2 = c2" using c z1 z2 by simp_all
  show ?thesis
    using cs c k1(4-8) k2(4-8) unfolding e1 e2 by simp
qed

lemma strip_process:
  assumes box: "bfs_minX c = 0" "bfs_maxX c = 0" "bfs_minY c = a" "bfs_maxY c = b"
    and len: "length (bfs_componentPixels c) = 201" and b: "b < 403"
    and rows: "{y. a \<le> y \<and> y \<le> b \<and> y \<in> set stripRows} = R" "R \<noteq> {}" "finite R"
    and pad: "paddedBox 1 403 \<lparr>rMinX = 0, rMaxX = 0, rMinY = Min R, rMaxY = Max R, hasContent = True\<rparr> = r"
  shows "processComponent 1 403 stripData c = [r]"
proof -
  let ?C = "contentPixels 1 stripData c"
  let ?t = "tightRefit 1 403 stripData c"
  have C: "?C = Pair 0 ` R"
    unfolding rows(1)[symmetric] by (auto simp: contentPixels_def box stripData_alpha)
  have ne: "?C \<noteq> {}" using C rows(2) by simp
  have im: "fst ` ?C = {0}" "snd ` ?C = R" using C rows(2) by (auto simp: image_image)
  have inv: "refitInv 1 403 ?C ?t"
    using box b by (intro tightRefit_inv) simp_all
  have hc: "hasContent ?t" using inv ne unfolding refitInv_def by blast
  have mm: "rMinX ?t = 0 \<and> rMaxX ?t = 0 \<and> rMinY ?t = Min R \<and> rMaxY ?t = Max R"
    using refitInv_Min_Max[OF inv contentPixels_finite ne] unfolding im by simp
  have "?t = \<lparr>rMinX = 0, rMaxX = 0, rMinY = Min R, rMaxY = Max R, hasContent = True\<rparr>"
    using mm hc by simp
  then have "paddedBox 1 403 ?t = r" using pad by simp
  moreover have "passesNoiseFilter c" using len by (simp add: passesNoiseFilter_def Let_def)
  ultimately show ?thesis
    using hc by (simp add: processComponent_def refineComponent_def Let_def)
qed

lemma strip_regions:
  "segmentRegions 1 403 stripData =
     Some [\<lparr>minX = 0, minY = 5, maxX = 0, maxY = 196, pixels = []\<rparr>,
           \<lparr>minX = 0, minY = 207, maxX = 0, maxY = 398, pixels = []\<rparr>]"
proof -
  let ?D = "dilate 1 403 (buildBinaryMap 1 403 stripData)"
  obtain c1 c2 where cs: "labelComponents 1 403 ?D = Some [c1, c2]"
    and c1: "length (bfs_componentPixels c1) = 201"
      "bfs_minX c1 = 0" "bfs_maxX c1 = 0" "bfs_minY c1 = 0" "bfs_maxY c1 = 200"
    and c2: "length (bfs_componentPixels c2) = 201"
      "bfs_minX c2 = 0" "bfs_maxX c2 = 0" "bfs_minY c2 = 202" "bfs_maxY c2 = 402"
    using strip_components by blast
  have R1: "{y. 0 \<le> y \<and> y \<le> 200 \<and> y \<in> set stripRows} = {15, 46, 77, 108, 139, 170, 185}"
    by (auto simp: stripRows_def)
  have R2: "{y. 202 \<le> y \<and> y \<le> 402 \<and> y \<in> set stripRows} = {217, 248, 279, 310, 341, 372, 387}"
    by (auto simp: stripRows_def)
  have p1: "processComponent 1 403 stripData c1 = [\<lparr>minX = 0, minY = 5, maxX = 0, maxY = 196, pixels = []\<rparr>]"
    by (rule strip_process[OF c1(2-5) c1(1) _ R1])
       (simp_all add: paddedBox_def Let_def PADDING_def ensureEven_def)
  have p2: "processComponent 1 403 stripData c2 = [\<lparr>minX = 0, minY = 207, maxX = 0, maxY = 398, pixels = []\<rparr>]"
    by (rule strip_process[OF c2(2-5) c2(1) _ R2])
       (simp_all add: paddedBox_def Let_def PADDING_def ensureEven_def)
  show ?thesis
    unfolding segmentRegions_def scanImage_emit cs using p1 p2 by simp
qed

section \<open>The claims\<close>

text \<open>
  C1. Every region that the refinement emits lies within the bitmap and has an even width
  and an even height. The first part holds, and a dimension is even unless the region
  spans the whole of an odd extent of the image (\<open>emitted_region_bounds_parity\<close>). In
  that case the code does not achieve what its comment announces: on \<open>exampleBitmap\<close>
  the padded box is clamped to the whole width of 15 pixels, so the parity adjustment
  can neither grow the right edge nor move the left one, and the only region emitted is
  15 pixels wide.
\<close>

theorem odd_width_region_at_full_span:
  "\<exists>b. segmentRegions 15 14 exampleData = Some [b] \<and>
       minX b = 0 \<and> maxX b = 14 \<and> minY b = 0 \<and> maxY b = 13 \<and>
       (maxX b - minX b + 1) mod 2 = 1"
  by (simp add: example_regions)

text \<open>
  C2, as the code has it. When the encoder rejects the raster of any one region, the
  rejection reaches the handler of \<open>segmentImage\<close> through \<open>Promise.all\<close>, and the call
  returns the empty list: no object is returned, whatever the encoder does for the other
  regions.
\<close>

theorem encode_failure_empties_result:
  assumes "segmentRegions (bm_width imageBitmap) (bm_height imageBitmap) (bm_data imageBitmap) = Some objects"
    and "i < length objects"
    and "convertToBlob p i (objectRaster imageBitmap (objects ! i)) = None"
  shows "segmentImage p imageBitmap sourceId = Some []"
proof (cases "mainContext p")
  case False
  then show ?thesis by (simp add: segmentImage_def segmentImageTry_def catchAll_def)
next
  case True
  have "\<exists>e. extractObject p imageBitmap sourceId (i, objects ! i) = Inl e"
    using assms(3) by (simp add: extractObject_def Let_def)
  then obtain e where nth: "map (extractObject p imageBitmap sourceId) (enumerate 0 objects) ! i = Inl e"
    using assms(2) by (auto simp: nth_enumerate_eq)
  have lt: "i < length (map (extractObject p imageBitmap sourceId) (enumerate 0 objects))"
    using assms(2) by simp
  obtain e' where "extractObjects p imageBitmap sourceId objects = Inl e'"
    unfolding extractObjects_def using promiseAll_Inl[OF lt nth] by blast
  then show ?thesis
    using True assms(1) by (simp add: segmentImage_def segmentImageTry_def catchAll_def)
qed

theorem encode_failure_empties_result_witness:
  "segmentRegions (bm_width exampleBitmap) (bm_height exampleBitmap) (bm_data exampleBitmap)
     = Some [\<lparr>minX = 0, minY = 0, maxX = 14, maxY = 13, pixels = []\<rparr>] \<and>
   (0::nat) < length [\<lparr>minX = 0, minY = 0, maxX = 14, maxY = 13, pixels = []\<rparr>] \<and>
   convertToBlob rejectingPlatform 0
     (objectRaster exampleBitmap ([\<lparr>minX = 0, minY = 0, maxX = 14, maxY = 13, pixels = []\<rparr>] ! 0)) = None \<and>
   segmentImage rejectingPlatform exampleBitmap ''a'' = Some []"
proof -
  have r: "segmentRegions (bm_width exampleBitmap) (bm_height exampleBitmap) (bm_data exampleBitmap)
     = Some [\<lparr>minX = 0, minY = 0, maxX = 14, maxY = 13, pixels = []\<rparr>]"
    by (simp add: exampleBitmap_def example_regions)
  have i: "(0::nat) < length [\<lparr>minX = 0, minY = 0, maxX = 14, maxY = 13, pixels = []\<rparr>]"
    by simp
  have e: "convertToBlob rejectingPlatform 0
     (objectRaster exampleBitmap ([\<lparr>minX = 0, minY = 0, maxX = 14, maxY = 13, pixels = []\<rparr>] ! 0)) = None"
    by (simp add: rejectingPlatform_def)
  show ?thesis
    using encode_failure_empties_result[OF r i e, of "''a''"] r i e by blast
qed

text \<open>
  The claim as the specification words it fails on \<open>stripBitmap\<close>, which has two
  regions: the encoder rejects the raster of the first, the second is extracted and
  encoded without failure, and yet the call returns the empty list.
\<close>

theorem encode_failure_drops_siblings:
  "segmentRegions (bm_width stripBitmap) (bm_height stripBitmap) (bm_data stripBitmap) =
     Some [\<lparr>minX = 0, minY = 5, maxX = 0, maxY = 196, pixels = []\<rparr>,
           \<lparr>minX = 0, minY = 207, maxX = 0, maxY = 398, pixels = []\<rparr>] \<and>
   convertToBlob rejectingPlatform 0
     (objectRaster stripBitmap \<lparr>minX = 0, minY = 5, maxX = 0, maxY = 196, pixels = []\<rparr>) = None \<and>
   extractObject rejectingPlatform stripBitmap ''a''
      (1, \<lparr>minX = 0, minY = 207, maxX = 0, maxY = 398, pixels = []\<rparr>)
     = Inr \<lparr>so_id = ''obj-a-1-1001'', so_sourceId = ''a'', so_url = ''blob:1'',
            so_width = 1, so_height = 192, so_x = 0, so_y = 207\<rparr> \<and>
   segmentImage rejectingPlatform stripBitmap ''a'' = Some []"
proof -
  have r: "segmentRegions (bm_width stripBitmap) (bm_height stripBitmap) (bm_data stripBitmap) =
     Some [\<lparr>minX = 0, minY = 5, maxX = 0, maxY = 196, pixels = []\<rparr>,
           \<lparr>minX = 0, minY = 207, maxX = 0, maxY = 398, pixels = []\<rparr>]"
    using strip_regions by (simp add: stripBitmap_def)
  have e: "convertToBlob rejectingPlatform 0
     (objectRaster stripBitmap \<lparr>minX = 0, minY = 5, maxX = 0, maxY = 196, pixels = []\<rparr>) = None"
    by (simp add: rejectingPlatform_def)
  have x: "extractObject rejectingPlatform stripBitmap ''a''
      (1, \<lparr>minX = 0, minY = 207, maxX = 0, maxY = 398, pixels = []\<rparr>)
     = Inr \<lparr>so_id = ''obj-a-1-1001'', so_sourceId = ''a'', so_url = ''blob:1'',
            so_width = 1, so_height = 192, so_x = 0, so_y = 207\<rparr>"
    by (simp add: extractObject_def rejectingPlatform_def examplePlatform_def
          showNat.simps digitChar_def Let_def)
  have s: "segmentImage rejectingPlatform stripBitmap ''a'' = Some []"
    unfolding segmentImage_def segmentImageTry_def r
    by (simp add: extractObjects_def extractObject_def rejectingPlatform_def examplePlatform_def
          catchAll_def enumerate_eq_zip Let_def)
  show ?thesis using r e x s by blast
qed

text \<open>
  C3. The two passes of the dilation, rows first and columns second, each over the span
  of 15 pixels to either side clamped to the image, compute exactly the dilation by a
  square of 31 by 31 pixels: a pixel is set iff a foreground pixel of the raw mask lies
  within Chebyshev distance 15 of it. This holds for every mask and every image size.
\<close>

theorem two_pass_dilation_is_box_dilation:
  "dilate width height binaryMap = boxDilation kernelSize width height binaryMap"
proof (rule nth_equalityI)
  show "length (dilate width height binaryMap) = length (boxDilation kernelSize width height binaryMap)"
    by (simp add: dilate_length boxDilation_def)
next
  fix i assume "i < length (dilate width height binaryMap)"
  then have i: "i < width * height" by (simp add: dilate_length)
  then have w: "0 < width" by (cases width) auto
  have x: "i mod width < width" using w by simp
  have y: "i div width < height" using i by (simp add: less_mult_imp_div_less mult.commute)
  have idx: "i div width * width + i mod width = i" by simp
  have "truthy (dilate width height binaryMap) i \<longleftrightarrow>
     (\<exists>y' < height. \<exists>x' < width. truthy binaryMap (y' * width + x') \<and>
             chebyshevNear kernelSize (i mod width) x' \<and> chebyshevNear kernelSize (i div width) y')"
    using dilate_pixel[OF x y, of binaryMap] by (simp only: idx)
  then show "dilate width height binaryMap ! i = boxDilation kernelSize width height binaryMap ! i"
    using i by (simp add: dilate_nth boxDilation_def Bex_def)
qed

theorem two_pass_dilation_is_box_dilation_witness:
  "dilate 20 1 (1 # replicate 19 0) = boxDilation kernelSize 20 1 (1 # replicate 19 0) \<and>
   boxDilation kernelSize 20 1 (1 # replicate 19 0) = replicate 16 1 @ replicate 4 0"
proof -
  have a: "boxDilation kernelSize 20 1 (1 # replicate 19 0) = replicate 16 1 @ replicate 4 0"
    by code_simp
  show ?thesis
    using two_pass_dilation_is_box_dilation[of 20 1 "1 # replicate 19 0"] a by blast
qed

text \<open>
  C4. A component goes on to the refit iff the area of its dilated bounding box exceeds
  900 or it has more than 200 pixels; everything else is dropped. Both comparisons are
  strict: with area 900 and 200 pixels the component is dropped, with area 930 it goes on
  even with a single pixel.
\<close>

theorem noise_filter_thresholds:
  "processComponent width height data s =
     (if 900 < (int (bfs_maxX s) - int (bfs_minX s) + 1) * (int (bfs_maxY s) - int (bfs_minY s) + 1)
         \<or> 200 < length (bfs_componentPixels s)
      then refineComponent width height data s else []) \<and>
   ((int (bfs_maxX s) - int (bfs_minX s) + 1) * (int (bfs_maxY s) - int (bfs_minY s) + 1) = 900 \<and>
      length (bfs_componentPixels s) = 200 \<longrightarrow> processComponent width height data s = []) \<and>
   ((int (bfs_maxX s) - int (bfs_minX s) + 1) * (int (bfs_maxY s) - int (bfs_minY s) + 1) = 930 \<and>
      length (bfs_componentPixels s) = 1 \<longrightarrow>
      processComponent width height data s = refineComponent width height data s)"
  by (simp add: processComponent_def passesNoiseFilter_def Let_def)

theorem noise_filter_thresholds_witness:
  "processComponent 40 40 [] (\<lparr>bfs_queue = [], bfs_head = 0, bfs_visited = [], bfs_minX = 0, bfs_maxX = 29, bfs_minY = 0, bfs_maxY = 29, bfs_componentPixels = replicate 200 0\<rparr>) = [] \<and>
   processComponent 40 40 [] (\<lparr>bfs_queue = [], bfs_head = 0, bfs_visited = [], bfs_minX = 0, bfs_maxX = 30, bfs_minY = 0, bfs_maxY = 29, bfs_componentPixels = [0]\<rparr>) = refineComponent 40 40 [] (\<lparr>bfs_queue = [], bfs_head = 0, bfs_visited = [], bfs_minX = 0, bfs_maxX = 30, bfs_minY = 0, bfs_maxY = 29, bfs_componentPixels = [0]\<rparr>)"
proof -
  have a: "(int (bfs_maxX (\<lparr>bfs_queue = [], bfs_head = 0, bfs_visited = [], bfs_minX = 0, bfs_maxX = 29, bfs_minY = 0, bfs_maxY = 29, bfs_componentPixels = replicate 200 0\<rparr>)) - int (bfs_minX (\<lparr>bfs_queue = [], bfs_head = 0, bfs_visited = [], bfs_minX = 0, bfs_maxX = 29, bfs_minY = 0, bfs_maxY = 29, bfs_componentPixels = replicate 200 0\<rparr>)) + 1) * (int (bfs_maxY (\<lparr>bfs_queue = [], bfs_head = 0, bfs_visited = [], bfs_minX = 0, bfs_maxX = 29, bfs_minY = 0, bfs_maxY = 29, bfs_componentPixels = replicate 200 0\<rparr>)) - int (bfs_minY (\<lparr>bfs_queue = [], bfs_head = 0, bfs_visited = [], bfs_minX = 0, bfs_maxX = 29, bfs_minY = 0, bfs_maxY = 29, bfs_componentPixels = replicate 200 0\<rparr>)) + 1) = 900 \<and>
      length (bfs_componentPixels (\<lparr>bfs_queue = [], bfs_head = 0, bfs_visited = [], bfs_minX = 0, bfs_maxX = 29, bfs_minY = 0, bfs_maxY = 29, bfs_componentPixels = replicate 200 0\<rparr>)) = 200"
    by simp
  have b: "(int (bfs_maxX (\<lparr>bfs_queue = [], bfs_head = 0, bfs_visited = [], bfs_minX = 0, bfs_maxX = 30, bfs_minY = 0, bfs_maxY = 29, bfs_componentPixels = [0]\<rparr>)) - int (bfs_minX (\<lparr>bfs_queue = [], bfs_head = 0, bfs_visited = [], bfs_minX = 0, bfs_maxX = 30, bfs_minY = 0, bfs_maxY = 29, bfs_componentPixels = [0]\<rparr>)) + 1) * (int (bfs_maxY (\<lparr>bfs_queue = [], bfs_head = 0, bfs_visited = [], bfs_minX = 0, bfs_maxX = 30, bfs_minY = 0, bfs_maxY = 29, bfs_componentPixels = [0]\<rparr>)) - int (bfs_minY (\<lparr>bfs_queue = [], bfs_head = 0, bfs_visited = [], bfs_minX = 0, bfs_maxX = 30, bfs_minY = 0, bfs_maxY = 29, bfs_componentPixels = [0]\<rparr>)) + 1) = 930 \<and>
      length (bfs_componentPixels (\<lparr>bfs_queue = [], bfs_head = 0, bfs_visited = [], bfs_minX = 0, bfs_maxX = 30, bfs_minY = 0, bfs_maxY = 29, bfs_componentPixels = [0]\<rparr>)) = 1"
    by simp
  show ?thesis
    using noise_filter_thresholds[of 40 40 "[]" "(\<lparr>bfs_queue = [], bfs_head = 0, bfs_visited = [], bfs_minX = 0, bfs_maxX = 29, bfs_minY = 0, bfs_maxY = 29, bfs_componentPixels = replicate 200 0\<rparr>)"] noise_filter_thresholds[of 40 40 "[]" "(\<lparr>bfs_queue = [], bfs_head = 0, bfs_visited = [], bfs_minX = 0, bfs_maxX = 30, bfs_minY = 0, bfs_maxY = 29, bfs_componentPixels = [0]\<rparr>)"] a b
    by blast
qed

text \<open>
  C5. For a component whose dilated bounding box lies within the image (as that of every
  labeled component does, \<open>labeled_component_bbox\<close>), the refit finds content iff
  some pixel of the original alpha channel inside that box is above the threshold; the
  box it computes is then the smallest rectangle around all such pixels, and that box is
  what gets padded. With no such pixel the component yields no region.
\<close>

theorem tight_refit_minimal:
  assumes "bfs_maxX s < width" "bfs_maxY s < height"
  shows "(hasContent (tightRefit width height data s) \<longleftrightarrow> contentPixels width data s \<noteq> {}) \<and>
         (contentPixels width data s \<noteq> {} \<longrightarrow>
            rMinX (tightRefit width height data s) = Min (fst ` contentPixels width data s) \<and>
            rMaxX (tightRefit width height data s) = Max (fst ` contentPixels width data s) \<and>
            rMinY (tightRefit width height data s) = Min (snd ` contentPixels width data s) \<and>
            rMaxY (tightRefit width height data s) = Max (snd ` contentPixels width data s) \<and>
            refineComponent width height data s =
              [paddedBox width height (tightRefit width height data s)]) \<and>
         (contentPixels width data s = {} \<longrightarrow> refineComponent width height data s = [])"
proof -
  have inv: "refitInv width height (contentPixels width data s) (tightRefit width height data s)"
    using assms by (rule tightRefit_inv)
  have hc: "hasContent (tightRefit width height data s) \<longleftrightarrow> contentPixels width data s \<noteq> {}"
    using inv unfolding refitInv_def by blast
  have mm: "contentPixels width data s \<noteq> {} \<Longrightarrow>
            rMinX (tightRefit width height data s) = Min (fst ` contentPixels width data s) \<and>
            rMaxX (tightRefit width height data s) = Max (fst ` contentPixels width data s) \<and>
            rMinY (tightRefit width height data s) = Min (snd ` contentPixels width data s) \<and>
            rMaxY (tightRefit width height data s) = Max (snd ` contentPixels width data s)"
    by (rule refitInv_Min_Max[OF inv contentPixels_finite])
  show ?thesis using hc mm by (simp add: refineComponent_def Let_def)
qed

theorem tight_refit_minimal_witness:
  "bfs_maxX (\<lparr>bfs_queue = [], bfs_head = 0, bfs_visited = [], bfs_minX = 0, bfs_maxX = 3, bfs_minY = 0, bfs_maxY = 2, bfs_componentPixels = replicate 201 0\<rparr>) < 4 \<and> bfs_maxY (\<lparr>bfs_queue = [], bfs_head = 0, bfs_visited = [], bfs_minX = 0, bfs_maxX = 3, bfs_minY = 0, bfs_maxY = 2, bfs_componentPixels = replicate 201 0\<rparr>) < 3 \<and>
   tightRefit 4 3 smallData (\<lparr>bfs_queue = [], bfs_head = 0, bfs_visited = [], bfs_minX = 0, bfs_maxX = 3, bfs_minY = 0, bfs_maxY = 2, bfs_componentPixels = replicate 201 0\<rparr>) = \<lparr>rMinX = 1, rMaxX = 2, rMinY = 1, rMaxY = 1, hasContent = True\<rparr> \<and>
   contentPixels 4 smallData (\<lparr>bfs_queue = [], bfs_head = 0, bfs_visited = [], bfs_minX = 0, bfs_maxX = 3, bfs_minY = 0, bfs_maxY = 2, bfs_componentPixels = replicate 201 0\<rparr>) \<noteq> {} \<and>
   Min (fst ` contentPixels 4 smallData (\<lparr>bfs_queue = [], bfs_head = 0, bfs_visited = [], bfs_minX = 0, bfs_maxX = 3, bfs_minY = 0, bfs_maxY = 2, bfs_componentPixels = replicate 201 0\<rparr>)) = 1 \<and> Max (fst ` contentPixels 4 smallData (\<lparr>bfs_queue = [], bfs_head = 0, bfs_visited = [], bfs_minX = 0, bfs_maxX = 3, bfs_minY = 0, bfs_maxY = 2, bfs_componentPixels = replicate 201 0\<rparr>)) = 2 \<and>
   Min (snd ` contentPixels 4 smallData (\<lparr>bfs_queue = [], bfs_head = 0, bfs_visited = [], bfs_minX = 0, bfs_maxX = 3, bfs_minY = 0, bfs_maxY = 2, bfs_componentPixels = replicate 201 0\<rparr>)) = 1 \<and> Max (snd ` contentPixels 4 smallData (\<lparr>bfs_queue = [], bfs_head = 0, bfs_visited = [], bfs_minX = 0, bfs_maxX = 3, bfs_minY = 0, bfs_maxY = 2, bfs_componentPixels = replicate 201 0\<rparr>)) = 1 \<and>
   refineComponent 4 3 smallData (\<lparr>bfs_queue = [], bfs_head = 0, bfs_visited = [], bfs_minX = 0, bfs_maxX = 3, bfs_minY = 0, bfs_maxY = 2, bfs_componentPixels = replicate 201 0\<rparr>) = [paddedBox 4 3 (tightRefit 4 3 smallData (\<lparr>bfs_queue = [], bfs_head = 0, bfs_visited = [], bfs_minX = 0, bfs_maxX = 3, bfs_minY = 0, bfs_maxY = 2, bfs_componentPixels = replicate 201 0\<rparr>))]"
proof -
  let ?s = "\<lparr>bfs_queue = [], bfs_head = 0, bfs_visited = [], bfs_minX = 0, bfs_maxX = 3, bfs_minY = 0, bfs_maxY = 2, bfs_componentPixels = replicate 201 0\<rparr>"
  let ?t = "tightRefit 4 3 smallData ?s"
  let ?C = "contentPixels 4 smallData ?s"
  have h1: "bfs_maxX ?s < 4" and h2: "bfs_maxY ?s < 3" by simp_all
  have e: "?t = \<lparr>rMinX = 1, rMaxX = 2, rMinY = 1, rMaxY = 1, hasContent = True\<rparr>"
    by code_simp
  have f: "hasContent ?t" "rMinX ?t = 1" "rMaxX ?t = 2" "rMinY ?t = 1" "rMaxY ?t = 1"
    unfolding e by simp_all
  have ne: "?C \<noteq> {}"
    using tight_refit_minimal[OF h1 h2, of smallData] f(1) by blast
  have mm: "rMinX ?t = Min (fst ` ?C) \<and> rMaxX ?t = Max (fst ` ?C) \<and>
            rMinY ?t = Min (snd ` ?C) \<and> rMaxY ?t = Max (snd ` ?C) \<and>
            refineComponent 4 3 smallData ?s = [paddedBox 4 3 ?t]"
    using tight_refit_minimal[OF h1 h2, of smallData] ne by blast
  have "Min (fst ` ?C) = 1" "Max (fst ` ?C) = 2" "Min (snd ` ?C) = 1" "Max (snd ` ?C) = 1"
    using mm f(2-5) by metis+
  then show ?thesis using h1 h2 e ne mm by blast
qed

text \<open>
  C10. For such a component, every pixel above the alpha threshold inside its dilated
  bounding box lies inside the region emitted for it: padding only widens the tight box,
  clamping stops at the image border, which no pixel lies beyond, and the parity
  adjustment moves an edge outwards or leaves it.
\<close>

theorem region_contains_content:
  assumes "bfs_maxX s < width" "bfs_maxY s < height"
    and "b \<in> set (processComponent width height data s)"
    and "bfs_minX s \<le> x" "x \<le> bfs_maxX s" "bfs_minY s \<le> y" "y \<le> bfs_maxY s"
    and "alphaAbove data (y * width + x)"
  shows "minX b \<le> int x \<and> int x \<le> maxX b \<and> minY b \<le> int y \<and> int y \<le> maxY b"
proof -
  let ?r = "tightRefit width height data s"
  have inv: "refitInv width height (contentPixels width data s) ?r"
    using assms(1,2) by (rule tightRefit_inv)
  have b: "hasContent ?r" "b = paddedBox width height ?r"
    using assms(3) by (auto simp: processComponent_def refineComponent_def Let_def split: if_splits)
  have "(x, y) \<in> contentPixels width data s" using assms(4-8) by (simp add: contentPixels_def)
  then have in_tight: "rMinX ?r \<le> x \<and> x \<le> rMaxX ?r \<and> rMinY ?r \<le> y \<and> y \<le> rMaxY ?r"
    using inv unfolding refitInv_def by force
  have box: "rMinX ?r \<le> rMaxX ?r \<and> rMaxX ?r < width \<and> rMinY ?r \<le> rMaxY ?r \<and> rMaxY ?r < height"
    using refitInv_box[OF inv b(1)] .
  from paddedBox_props[of ?r width height] box in_tight show ?thesis
    unfolding b(2) by linarith
qed

theorem region_contains_content_witness:
  "bfs_maxX (\<lparr>bfs_queue = [], bfs_head = 0, bfs_visited = [], bfs_minX = 0, bfs_maxX = 3, bfs_minY = 0, bfs_maxY = 2, bfs_componentPixels = replicate 201 0\<rparr>) < 4 \<and> bfs_maxY (\<lparr>bfs_queue = [], bfs_head = 0, bfs_visited = [], bfs_minX = 0, bfs_maxX = 3, bfs_minY = 0, bfs_maxY = 2, bfs_componentPixels = replicate 201 0\<rparr>) < 3 \<and>
   \<lparr>minX = 0, minY = 0, maxX = 3, maxY = 2, pixels = []\<rparr> \<in> set (processComponent 4 3 smallData (\<lparr>bfs_queue = [], bfs_head = 0, bfs_visited = [], bfs_minX = 0, bfs_maxX = 3, bfs_minY = 0, bfs_maxY = 2, bfs_componentPixels = replicate 201 0\<rparr>)) \<and>
   alphaAbove smallData (1 * 4 + 2) \<and>
   minX \<lparr>minX = 0, minY = 0, maxX = 3, maxY = 2, pixels = []\<rparr> \<le> int 2 \<and>
   int 2 \<le> maxX \<lparr>minX = 0, minY = 0, maxX = 3, maxY = 2, pixels = []\<rparr> \<and>
   minY \<lparr>minX = 0, minY = 0, maxX = 3, maxY = 2, pixels = []\<rparr> \<le> int 1 \<and>
   int 1 \<le> maxY \<lparr>minX = 0, minY = 0, maxX = 3, maxY = 2, pixels = []\<rparr>"
proof -
  have h1: "bfs_maxX (\<lparr>bfs_queue = [], bfs_head = 0, bfs_visited = [], bfs_minX = 0, bfs_maxX = 3, bfs_minY = 0, bfs_maxY = 2, bfs_componentPixels = replicate 201 0\<rparr>) < 4" and h2: "bfs_maxY (\<lparr>bfs_queue = [], bfs_head = 0, bfs_visited = [], bfs_minX = 0, bfs_maxX = 3, bfs_minY = 0, bfs_maxY = 2, bfs_componentPixels = replicate 201 0\<rparr>) < 3" by simp_all
  have p: "processComponent 4 3 smallData (\<lparr>bfs_queue = [], bfs_head = 0, bfs_visited = [], bfs_minX = 0, bfs_maxX = 3, bfs_minY = 0, bfs_maxY = 2, bfs_componentPixels = replicate 201 0\<rparr>) = [\<lparr>minX = 0, minY = 0, maxX = 3, maxY = 2, pixels = []\<rparr>]"
    by code_simp
  have m: "\<lparr>minX = 0, minY = 0, maxX = 3, maxY = 2, pixels = []\<rparr> \<in> set (processComponent 4 3 smallData (\<lparr>bfs_queue = [], bfs_head = 0, bfs_visited = [], bfs_minX = 0, bfs_maxX = 3, bfs_minY = 0, bfs_maxY = 2, bfs_componentPixels = replicate 201 0\<rparr>))"
    unfolding p by simp
  have b: "bfs_minX (\<lparr>bfs_queue = [], bfs_head = 0, bfs_visited = [], bfs_minX = 0, bfs_maxX = 3, bfs_minY = 0, bfs_maxY = 2, bfs_componentPixels = replicate 201 0\<rparr>) \<le> 2" "2 \<le> bfs_maxX (\<lparr>bfs_queue = [], bfs_head = 0, bfs_visited = [], bfs_minX = 0, bfs_maxX = 3, bfs_minY = 0, bfs_maxY = 2, bfs_componentPixels = replicate 201 0\<rparr>)" "bfs_minY (\<lparr>bfs_queue = [], bfs_head = 0, bfs_visited = [], bfs_minX = 0, bfs_maxX = 3, bfs_minY = 0, bfs_maxY = 2, bfs_componentPixels = replicate 201 0\<rparr>) \<le> 1" "1 \<le> bfs_maxY (\<lparr>bfs_queue = [], bfs_head = 0, bfs_visited = [], bfs_minX = 0, bfs_maxX = 3, bfs_minY = 0, bfs_maxY = 2, bfs_componentPixels = replicate 201 0\<rparr>)" by simp_all
  have a: "alphaAbove smallData (1 * 4 + 2)" by code_simp
  show ?thesis
    using region_contains_content[OF h1 h2 m b a] h1 h2 m a by blast
qed

text \<open>
  C6. The labeler emits the components in raster order of their first pixels: each
  component's first pixel is its least pixel in row-major order (\<open>raster_order\<close>), the
  first pixels strictly increase along the output, so that of two components the one
  whose first pixel comes earlier in the raster has the lower index, no two components
  share a pixel, and every foreground pixel of the dilated mask belongs to one of them.
  (On a mask of zeros and ones, as the dilation produces, a component is moreover the
  set of pixels joined to its first pixel through neighbours of value one:
  \<open>labeled_components_connected\<close>.)
\<close>

theorem discovery_order:
  assumes "labelComponents width height dilatedMap = Some cs"
  shows "(\<forall>c \<in> set cs. bfs_componentPixels c \<noteq> [] \<and>
            Min (set (bfs_componentPixels c)) = hd (bfs_componentPixels c)) \<and>
         sorted_wrt (<) (map (\<lambda>c. hd (bfs_componentPixels c)) cs) \<and>
         (\<forall>i j. i < length cs \<and> j < length cs \<longrightarrow>
            (i < j \<longleftrightarrow> Min (set (bfs_componentPixels (cs ! i))) < Min (set (bfs_componentPixels (cs ! j))))) \<and>
         (\<forall>i j. i < j \<and> j < length cs \<longrightarrow>
            set (bfs_componentPixels (cs ! i)) \<inter> set (bfs_componentPixels (cs ! j)) = {}) \<and>
         (\<forall>p < width * height. \<not> eqAt dilatedMap p 0 \<longrightarrow> (\<exists>c \<in> set cs. p \<in> set (bfs_componentPixels c)))"
proof -
  obtain v cs' where cs': "labelComponents width height dilatedMap = Some cs'"
    and inv': "scanInv width height dilatedMap (height * width) v cs'"
    using labelComponents_total by blast
  have inv: "scanInv width height dilatedMap (height * width) v cs"
    using assms cs' inv' by simp
  have ok: "\<forall>c \<in> set cs. compOK width height dilatedMap c"
    using inv unfolding scanInv_def by blast
  have srt: "sorted_wrt (<) (map (\<lambda>c. hd (bfs_componentPixels c)) cs)"
    using inv unfolding scanInv_def by blast
  have dis: "distinct (concat (map bfs_componentPixels cs))"
    using inv unfolding scanInv_def by blast
  have vis: "\<forall>j. truthy v j \<longleftrightarrow> (\<exists>c \<in> set cs. j \<in> set (bfs_componentPixels c))"
    using inv unfolding scanInv_def by blast
  have below: "\<forall>j < height * width. truthy v j \<or> eqAt dilatedMap j 0"
    using inv unfolding scanInv_def by blast
  have min: "\<forall>c \<in> set cs. bfs_componentPixels c \<noteq> [] \<and>
            Min (set (bfs_componentPixels c)) = hd (bfs_componentPixels c)"
  proof
    fix c assume c: "c \<in> set cs"
    have ne: "bfs_componentPixels c \<noteq> []" using ok c unfolding compOK_def by blast
    have le: "\<forall>p \<in> set (bfs_componentPixels c). hd (bfs_componentPixels c) \<le> p"
      using ok c unfolding compOK_def by blast
    have "Min (set (bfs_componentPixels c)) = hd (bfs_componentPixels c)"
      using ne le by (intro Min_eqI) auto
    then show "bfs_componentPixels c \<noteq> [] \<and>
            Min (set (bfs_componentPixels c)) = hd (bfs_componentPixels c)"
      using ne by simp
  qed
  have less: "\<And>i j. i < j \<Longrightarrow> j < length cs \<Longrightarrow>
      hd (bfs_componentPixels (cs ! i)) < hd (bfs_componentPixels (cs ! j))"
  proof -
    fix i j assume ij: "i < j" "j < length cs"
    have "map (\<lambda>c. hd (bfs_componentPixels c)) cs ! i < map (\<lambda>c. hd (bfs_componentPixels c)) cs ! j"
      using srt ij by (intro sorted_wrt_nth_less) simp_all
    then show "hd (bfs_componentPixels (cs ! i)) < hd (bfs_componentPixels (cs ! j))"
      using ij by simp
  qed
  have ord: "\<forall>i j. i < length cs \<and> j < length cs \<longrightarrow>
            (i < j \<longleftrightarrow> Min (set (bfs_componentPixels (cs ! i))) < Min (set (bfs_componentPixels (cs ! j))))"
  proof (intro allI impI)
    fix i j assume b: "i < length cs \<and> j < length cs"
    then have mi: "Min (set (bfs_componentPixels (cs ! i))) = hd (bfs_componentPixels (cs ! i))"
      and mj: "Min (set (bfs_componentPixels (cs ! j))) = hd (bfs_componentPixels (cs ! j))"
      using min by simp_all
    show "i < j \<longleftrightarrow> Min (set (bfs_componentPixels (cs ! i))) < Min (set (bfs_componentPixels (cs ! j)))"
      unfolding mi mj
    proof
      assume "i < j" then show "hd (bfs_componentPixels (cs ! i)) < hd (bfs_componentPixels (cs ! j))"
        using less b by simp
    next
      assume h: "hd (bfs_componentPixels (cs ! i)) < hd (bfs_componentPixels (cs ! j))"
      show "i < j"
      proof (rule ccontr)
        assume "\<not> i < j"
        then have "j = i \<or> j < i" by auto
        then show False using h less[of j i] b by auto
      qed
    qed
  qed
  have disj: "\<forall>i j. i < j \<and> j < length cs \<longrightarrow>
            set (bfs_componentPixels (cs ! i)) \<inter> set (bfs_componentPixels (cs ! j)) = {}"
  proof (intro allI impI)
    fix i j assume ij: "i < j \<and> j < length cs"
    then have "set (map bfs_componentPixels cs ! i) \<inter> set (map bfs_componentPixels cs ! j) = {}"
      using dis by (intro distinct_concat_disjoint) simp_all
    then show "set (bfs_componentPixels (cs ! i)) \<inter> set (bfs_componentPixels (cs ! j)) = {}"
      using ij by simp
  qed
  have cov: "\<forall>p < width * height. \<not> eqAt dilatedMap p 0 \<longrightarrow> (\<exists>c \<in> set cs. p \<in> set (bfs_componentPixels c))"
  proof (intro allI impI)
    fix p assume p: "p < width * height" "\<not> eqAt dilatedMap p 0"
    then have "p < height * width" by (simp add: mult.commute)
    then have "truthy v p" using below p(2) by blast
    then show "\<exists>c \<in> set cs. p \<in> set (bfs_componentPixels c)" using vis by blast
  qed
  show ?thesis using min srt ord disj cov by blast
qed

theorem discovery_order_witness:
  "labelComponents 3 2 [1, 0, 1, 1, 0, 0] = Some [\<lparr>bfs_queue = [0, 3], bfs_head = 2, bfs_visited = [1, 0, 0, 1, 0, 0], bfs_minX = 0, bfs_maxX = 0, bfs_minY = 0, bfs_maxY = 1, bfs_componentPixels = [0, 3]\<rparr>, \<lparr>bfs_queue = [2], bfs_head = 1, bfs_visited = [1, 0, 1, 1, 0, 0], bfs_minX = 2, bfs_maxX = 2, bfs_minY = 0, bfs_maxY = 0, bfs_componentPixels = [2]\<rparr>] \<and>
   Min (set (bfs_componentPixels \<lparr>bfs_queue = [0, 3], bfs_head = 2, bfs_visited = [1, 0, 0, 1, 0, 0], bfs_minX = 0, bfs_maxX = 0, bfs_minY = 0, bfs_maxY = 1, bfs_componentPixels = [0, 3]\<rparr>)) = hd (bfs_componentPixels \<lparr>bfs_queue = [0, 3], bfs_head = 2, bfs_visited = [1, 0, 0, 1, 0, 0], bfs_minX = 0, bfs_maxX = 0, bfs_minY = 0, bfs_maxY = 1, bfs_componentPixels = [0, 3]\<rparr>) \<and>
   Min (set (bfs_componentPixels \<lparr>bfs_queue = [2], bfs_head = 1, bfs_visited = [1, 0, 1, 1, 0, 0], bfs_minX = 2, bfs_maxX = 2, bfs_minY = 0, bfs_maxY = 0, bfs_componentPixels = [2]\<rparr>)) = hd (bfs_componentPixels \<lparr>bfs_queue = [2], bfs_head = 1, bfs_visited = [1, 0, 1, 1, 0, 0], bfs_minX = 2, bfs_maxX = 2, bfs_minY = 0, bfs_maxY = 0, bfs_componentPixels = [2]\<rparr>) \<and>
   hd (bfs_componentPixels \<lparr>bfs_queue = [0, 3], bfs_head = 2, bfs_visited = [1, 0, 0, 1, 0, 0], bfs_minX = 0, bfs_maxX = 0, bfs_minY = 0, bfs_maxY = 1, bfs_componentPixels = [0, 3]\<rparr>) = 0 \<and> hd (bfs_componentPixels \<lparr>bfs_queue = [2], bfs_head = 1, bfs_visited = [1, 0, 1, 1, 0, 0], bfs_minX = 2, bfs_maxX = 2, bfs_minY = 0, bfs_maxY = 0, bfs_componentPixels = [2]\<rparr>) = 2 \<and>
   sorted_wrt (<) (map (\<lambda>c. hd (bfs_componentPixels c)) [\<lparr>bfs_queue = [0, 3], bfs_head = 2, bfs_visited = [1, 0, 0, 1, 0, 0], bfs_minX = 0, bfs_maxX = 0, bfs_minY = 0, bfs_maxY = 1, bfs_componentPixels = [0, 3]\<rparr>, \<lparr>bfs_queue = [2], bfs_head = 1, bfs_visited = [1, 0, 1, 1, 0, 0], bfs_minX = 2, bfs_maxX = 2, bfs_minY = 0, bfs_maxY = 0, bfs_componentPixels = [2]\<rparr>]) \<and>
   set (bfs_componentPixels ([\<lparr>bfs_queue = [0, 3], bfs_head = 2, bfs_visited = [1, 0, 0, 1, 0, 0], bfs_minX = 0, bfs_maxX = 0, bfs_minY = 0, bfs_maxY = 1, bfs_componentPixels = [0, 3]\<rparr>, \<lparr>bfs_queue = [2], bfs_head = 1, bfs_visited = [1, 0, 1, 1, 0, 0], bfs_minX = 2, bfs_maxX = 2, bfs_minY = 0, bfs_maxY = 0, bfs_componentPixels = [2]\<rparr>] ! 0)) \<inter> set (bfs_componentPixels ([\<lparr>bfs_queue = [0, 3], bfs_head = 2, bfs_visited = [1, 0, 0, 1, 0, 0], bfs_minX = 0, bfs_maxX = 0, bfs_minY = 0, bfs_maxY = 1, bfs_componentPixels = [0, 3]\<rparr>, \<lparr>bfs_queue = [2], bfs_head = 1, bfs_visited = [1, 0, 1, 1, 0, 0], bfs_minX = 2, bfs_maxX = 2, bfs_minY = 0, bfs_maxY = 0, bfs_componentPixels = [2]\<rparr>] ! 1)) = {}"
proof -
  define ca where "ca = \<lparr>bfs_queue = [0, 3], bfs_head = 2, bfs_visited = [1, 0, 0, 1, 0, 0], bfs_minX = 0, bfs_maxX = 0, bfs_minY = 0, bfs_maxY = 1, bfs_componentPixels = [0, 3]\<rparr>"
  define cb where "cb = \<lparr>bfs_queue = [2], bfs_head = 1, bfs_visited = [1, 0, 1, 1, 0, 0], bfs_minX = 2, bfs_maxX = 2, bfs_minY = 0, bfs_maxY = 0, bfs_componentPixels = [2]\<rparr>"
  have e: "labelComponents 3 2 [1, 0, 1, 1, 0, 0] = Some [ca, cb]"
    unfolding ca_def cb_def by code_simp
  note d = discovery_order[OF e]
  have m: "\<forall>c \<in> set [ca, cb]. bfs_componentPixels c \<noteq> [] \<and>
            Min (set (bfs_componentPixels c)) = hd (bfs_componentPixels c)"
    using d by (rule conjunct1)
  have ma: "Min (set (bfs_componentPixels ca)) = hd (bfs_componentPixels ca)"
    using m by simp
  have mb: "Min (set (bfs_componentPixels cb)) = hd (bfs_componentPixels cb)"
    using m by simp
  have h: "hd (bfs_componentPixels ca) = 0" "hd (bfs_componentPixels cb) = 2"
    by (simp_all add: ca_def cb_def)
  have s: "sorted_wrt (<) (map (\<lambda>c. hd (bfs_componentPixels c)) [ca, cb])"
    using d by (rule conjunct2[THEN conjunct1])
  have "\<forall>i j. i < j \<and> j < length [ca, cb] \<longrightarrow>
            set (bfs_componentPixels ([ca, cb] ! i)) \<inter> set (bfs_componentPixels ([ca, cb] ! j)) = {}"
    using d by (rule conjunct2[THEN conjunct2, THEN conjunct2, THEN conjunct1])
  then have "(0::nat) < 1 \<and> 1 < length [ca, cb] \<longrightarrow>
      set (bfs_componentPixels ([ca, cb] ! 0)) \<inter> set (bfs_componentPixels ([ca, cb] ! 1)) = {}"
    by blast
  then have x: "set (bfs_componentPixels ([ca, cb] ! 0)) \<inter> set (bfs_componentPixels ([ca, cb] ! 1)) = {}"
    by simp
  show ?thesis
    using e ma mb h s x unfolding ca_def cb_def by blast
qed

text \<open>
  C9. The labeling of every mask returns. In what it returns, the queue of each component
  is the list of its pixels, no pixel occurs twice in all the queues together, every queued
  pixel is a pixel of the image, and so at most \<open>width * height\<close> pixels are ever
  enqueued; the scan with any treatment \<open>emit\<close> of the components returns as well.
\<close>

theorem flood_fill_terminates:
  "\<exists>cs. labelComponents width height dilatedMap = Some cs \<and>
        (\<forall>c \<in> set cs. bfs_queue c = bfs_componentPixels c) \<and>
        distinct (concat (map bfs_queue cs)) \<and>
        set (concat (map bfs_queue cs)) \<subseteq> {..<width * height} \<and>
        length (concat (map bfs_queue cs)) \<le> width * height \<and>
        scanImage emit width height dilatedMap = Some (concat (map emit cs))"
proof -
  obtain v cs where cs: "labelComponents width height dilatedMap = Some cs"
    and inv: "scanInv width height dilatedMap (height * width) v cs"
    using labelComponents_total by blast
  have ok: "\<forall>c \<in> set cs. compOK width height dilatedMap c"
    using inv unfolding scanInv_def by blast
  then have q: "\<forall>c \<in> set cs. bfs_queue c = bfs_componentPixels c"
    unfolding compOK_def by blast
  then have eq: "map bfs_queue cs = map bfs_componentPixels cs" by simp
  have d: "distinct (concat (map bfs_queue cs))"
    unfolding eq using inv unfolding scanInv_def by blast
  have sub: "set (concat (map bfs_queue cs)) \<subseteq> {..<width * height}"
    unfolding eq using ok unfolding compOK_def by auto
  have "card (set (concat (map bfs_queue cs))) \<le> card {..<width * height}"
    using sub by (intro card_mono) auto
  then have len: "length (concat (map bfs_queue cs)) \<le> width * height"
    using distinct_card[OF d] by simp
  have "scanImage emit width height dilatedMap = Some (concat (map emit cs))"
    by (simp add: scanImage_emit cs)
  then show ?thesis using cs q d sub len by blast
qed

theorem flood_fill_terminates_witness:
  "labelComponents 3 2 [1, 0, 1, 1, 0, 0] = Some [\<lparr>bfs_queue = [0, 3], bfs_head = 2, bfs_visited = [1, 0, 0, 1, 0, 0], bfs_minX = 0, bfs_maxX = 0, bfs_minY = 0, bfs_maxY = 1, bfs_componentPixels = [0, 3]\<rparr>, \<lparr>bfs_queue = [2], bfs_head = 1, bfs_visited = [1, 0, 1, 1, 0, 0], bfs_minX = 2, bfs_maxX = 2, bfs_minY = 0, bfs_maxY = 0, bfs_componentPixels = [2]\<rparr>] \<and>
   (\<exists>cs. labelComponents 3 2 [1, 0, 1, 1, 0, 0] = Some cs \<and>
        (\<forall>c \<in> set cs. bfs_queue c = bfs_componentPixels c) \<and>
        distinct (concat (map bfs_queue cs)) \<and>
        set (concat (map bfs_queue cs)) \<subseteq> {..<3 * 2} \<and>
        length (concat (map bfs_queue cs)) \<le> 3 * 2 \<and>
        scanImage (processComponent 3 2 []) 3 2 [1, 0, 1, 1, 0, 0]
          = Some (concat (map (processComponent 3 2 []) cs)))"
proof -
  have e: "labelComponents 3 2 [1, 0, 1, 1, 0, 0] = Some [\<lparr>bfs_queue = [0, 3], bfs_head = 2, bfs_visited = [1, 0, 0, 1, 0, 0], bfs_minX = 0, bfs_maxX = 0, bfs_minY = 0, bfs_maxY = 1, bfs_componentPixels = [0, 3]\<rparr>, \<lparr>bfs_queue = [2], bfs_head = 1, bfs_visited = [1, 0, 1, 1, 0, 0], bfs_minX = 2, bfs_maxX = 2, bfs_minY = 0, bfs_maxY = 0, bfs_componentPixels = [2]\<rparr>]"
    by code_simp
  show ?thesis
    using flood_fill_terminates[of 3 2 "[1, 0, 1, 1, 0, 0]" "processComponent 3 2 []"] e by blast
qed

text \<open>
  C7. Every record that the extraction returns carries the position of its region and
  exactly the region's width and height, and the raster handed to the encoder for it is
  the crop of the source bitmap at that position with those dimensions, pixel for pixel.
\<close>

theorem extraction_round_trip:
  assumes "extractObjects p imageBitmap sourceId objects = Inr results"
  shows "length results = length objects \<and>
         (\<forall>i < length objects.
            so_x (results ! i) = minX (objects ! i) \<and>
            so_y (results ! i) = minY (objects ! i) \<and>
            so_width (results ! i) = maxX (objects ! i) - minX (objects ! i) + 1 \<and>
            so_height (results ! i) = maxY (objects ! i) - minY (objects ! i) + 1 \<and>
            objectRaster imageBitmap (objects ! i) =
              cropBitmap imageBitmap (so_x (results ! i)) (so_y (results ! i))
                (so_width (results ! i)) (so_height (results ! i)) \<and>
            (\<exists>blob. convertToBlob p i (objectRaster imageBitmap (objects ! i)) = Some blob \<and>
                    so_url (results ! i) = createObjectURL p i blob))"
proof -
  have ex: "length results = length objects"
    "\<forall>i < length objects. extractObject p imageBitmap sourceId (i, objects ! i) = Inr (results ! i)"
    using extractObjects_Inr[OF assms] by simp_all
  have "\<forall>i < length objects.
            so_x (results ! i) = minX (objects ! i) \<and>
            so_y (results ! i) = minY (objects ! i) \<and>
            so_width (results ! i) = maxX (objects ! i) - minX (objects ! i) + 1 \<and>
            so_height (results ! i) = maxY (objects ! i) - minY (objects ! i) + 1 \<and>
            objectRaster imageBitmap (objects ! i) =
              cropBitmap imageBitmap (so_x (results ! i)) (so_y (results ! i))
                (so_width (results ! i)) (so_height (results ! i)) \<and>
            (\<exists>blob. convertToBlob p i (objectRaster imageBitmap (objects ! i)) = Some blob \<and>
                    so_url (results ! i) = createObjectURL p i blob)"
  proof (intro allI impI)
    fix i assume "i < length objects"
    then have e: "extractObject p imageBitmap sourceId (i, objects ! i) = Inr (results ! i)"
      using ex(2) by simp
    from extractObject_Inr[OF e] show "so_x (results ! i) = minX (objects ! i) \<and>
            so_y (results ! i) = minY (objects ! i) \<and>
            so_width (results ! i) = maxX (objects ! i) - minX (objects ! i) + 1 \<and>
            so_height (results ! i) = maxY (objects ! i) - minY (objects ! i) + 1 \<and>
            objectRaster imageBitmap (objects ! i) =
              cropBitmap imageBitmap (so_x (results ! i)) (so_y (results ! i))
                (so_width (results ! i)) (so_height (results ! i)) \<and>
            (\<exists>blob. convertToBlob p i (objectRaster imageBitmap (objects ! i)) = Some blob \<and>
                    so_url (results ! i) = createObjectURL p i blob)"
      by (simp add: objectRaster_def Let_def drawImage_crop)
  qed
  then show ?thesis using ex(1) by blast
qed

theorem extraction_round_trip_witness:
  "extractObjects examplePlatform tinyBitmap ''a'' [\<lparr>minX = 1, minY = 0, maxX = 2, maxY = 1, pixels = []\<rparr>]
     = Inr [\<lparr>so_id = ''obj-a-0-1000'', so_sourceId = ''a'', so_url = ''blob:0'',
             so_width = 2, so_height = 2, so_x = 1, so_y = 0\<rparr>] \<and>
   objectRaster tinyBitmap \<lparr>minX = 1, minY = 0, maxX = 2, maxY = 1, pixels = []\<rparr>
     = cropBitmap tinyBitmap 1 0 2 2 \<and>
   cropBitmap tinyBitmap 1 0 2 2 = [4, 5, 6, 7, 8, 9, 10, 11, 16, 17, 18, 19, 20, 21, 22, 23]"
proof -
  have e: "extractObjects examplePlatform tinyBitmap ''a'' [\<lparr>minX = 1, minY = 0, maxX = 2, maxY = 1, pixels = []\<rparr>]
     = Inr [\<lparr>so_id = ''obj-a-0-1000'', so_sourceId = ''a'', so_url = ''blob:0'',
             so_width = 2, so_height = 2, so_x = 1, so_y = 0\<rparr>]"
    by (simp add: extractObjects_def extractObject_def examplePlatform_def
          enumerate_eq_zip showNat.simps digitChar_def Let_def)
  have c: "cropBitmap tinyBitmap 1 0 2 2 = [4, 5, 6, 7, 8, 9, 10, 11, 16, 17, 18, 19, 20, 21, 22, 23]"
    by code_simp
  show ?thesis
    using extraction_round_trip[OF e] e c by simp
qed

text \<open>
  C8. Two runs of the pipeline on the same bitmap with the same source identifier, under
  browsers that may differ in everything they decide, return, when both complete, the
  same number of records, with the same position and dimensions at each index; the
  identifiers at an index agree up to their last component, the time stamp.
\<close>

theorem rerun_same_regions:
  assumes "segmentImageTry p1 imageBitmap sourceId = Some (Inr r1)"
    and "segmentImageTry p2 imageBitmap sourceId = Some (Inr r2)"
  shows "length r1 = length r2 \<and>
         (\<forall>i < length r1.
            so_x (r1 ! i) = so_x (r2 ! i) \<and> so_y (r1 ! i) = so_y (r2 ! i) \<and>
            so_width (r1 ! i) = so_width (r2 ! i) \<and> so_height (r1 ! i) = so_height (r2 ! i) \<and>
            so_sourceId (r1 ! i) = sourceId \<and> so_sourceId (r2 ! i) = sourceId \<and>
            so_id (r1 ! i) = ''obj-'' @ sourceId @ ''-'' @ showNat i @ ''-'' @ showNat (dateNow p1 i) \<and>
            so_id (r2 ! i) = ''obj-'' @ sourceId @ ''-'' @ showNat i @ ''-'' @ showNat (dateNow p2 i))"
proof -
  obtain objects where o1: "segmentRegions (bm_width imageBitmap) (bm_height imageBitmap) (bm_data imageBitmap) = Some objects"
    and e1: "extractObjects p1 imageBitmap sourceId objects = Inr r1"
    using segmentImageTry_Inr[OF assms(1)] by blast
  obtain objects' where o2: "segmentRegions (bm_width imageBitmap) (bm_height imageBitmap) (bm_data imageBitmap) = Some objects'"
    and e2': "extractObjects p2 imageBitmap sourceId objects' = Inr r2"
    using segmentImageTry_Inr[OF assms(2)] by blast
  have e2: "extractObjects p2 imageBitmap sourceId objects = Inr r2" using o1 o2 e2' by simp
  have l1: "length r1 = length objects"
    and x1: "\<forall>i < length objects. extractObject p1 imageBitmap sourceId (i, objects ! i) = Inr (r1 ! i)"
    using extractObjects_Inr[OF e1] by simp_all
  have l2: "length r2 = length objects"
    and x2: "\<forall>i < length objects. extractObject p2 imageBitmap sourceId (i, objects ! i) = Inr (r2 ! i)"
    using extractObjects_Inr[OF e2] by simp_all
  have "\<forall>i < length r1.
            so_x (r1 ! i) = so_x (r2 ! i) \<and> so_y (r1 ! i) = so_y (r2 ! i) \<and>
            so_width (r1 ! i) = so_width (r2 ! i) \<and> so_height (r1 ! i) = so_height (r2 ! i) \<and>
            so_sourceId (r1 ! i) = sourceId \<and> so_sourceId (r2 ! i) = sourceId \<and>
            so_id (r1 ! i) = ''obj-'' @ sourceId @ ''-'' @ showNat i @ ''-'' @ showNat (dateNow p1 i) \<and>
            so_id (r2 ! i) = ''obj-'' @ sourceId @ ''-'' @ showNat i @ ''-'' @ showNat (dateNow p2 i)"
  proof (intro allI impI)
    fix i assume "i < length r1"
    then have i: "i < length objects" using l1 by simp
    have a: "extractObject p1 imageBitmap sourceId (i, objects ! i) = Inr (r1 ! i)" using x1 i by simp
    have b: "extractObject p2 imageBitmap sourceId (i, objects ! i) = Inr (r2 ! i)" using x2 i by simp
    from extractObject_Inr[OF a] extractObject_Inr[OF b]
    show "so_x (r1 ! i) = so_x (r2 ! i) \<and> so_y (r1 ! i) = so_y (r2 ! i) \<and>
            so_width (r1 ! i) = so_width (r2 ! i) \<and> so_height (r1 ! i) = so_height (r2 ! i) \<and>
            so_sourceId (r1 ! i) = sourceId \<and> so_sourceId (r2 ! i) = sourceId \<and>
            so_id (r1 ! i) = ''obj-'' @ sourceId @ ''-'' @ showNat i @ ''-'' @ showNat (dateNow p1 i) \<and>
            so_id (r2 ! i) = ''obj-'' @ sourceId @ ''-'' @ showNat i @ ''-'' @ showNat (dateNow p2 i)"
      by simp
  qed
  then show ?thesis using l1 l2 by simp
qed

theorem rerun_same_regions_witness:
  "segmentImageTry examplePlatform exampleBitmap ''a''
     = Some (Inr [\<lparr>so_id = ''obj-a-0-1000'', so_sourceId = ''a'', so_url = ''blob:0'',
                   so_width = 15, so_height = 14, so_x = 0, so_y = 0\<rparr>]) \<and>
   segmentImageTry laterPlatform exampleBitmap ''a''
     = Some (Inr [\<lparr>so_id = ''obj-a-0-2000'', so_sourceId = ''a'', so_url = ''blob:0'',
                   so_width = 15, so_height = 14, so_x = 0, so_y = 0\<rparr>]) \<and>
   showNat (dateNow examplePlatform 0) = ''1000'' \<and> showNat (dateNow laterPlatform 0) = ''2000''"
proof -
  have r: "segmentRegions (bm_width exampleBitmap) (bm_height exampleBitmap) (bm_data exampleBitmap)
     = Some [\<lparr>minX = 0, minY = 0, maxX = 14, maxY = 13, pixels = []\<rparr>]"
    by (simp add: exampleBitmap_def example_regions)
  have e1: "segmentImageTry examplePlatform exampleBitmap ''a''
     = Some (Inr [\<lparr>so_id = ''obj-a-0-1000'', so_sourceId = ''a'', so_url = ''blob:0'',
                   so_width = 15, so_height = 14, so_x = 0, so_y = 0\<rparr>])"
    unfolding segmentImageTry_def r
    by (simp add: extractObjects_def extractObject_def examplePlatform_def
          enumerate_eq_zip showNat.simps digitChar_def Let_def)
  have e2: "segmentImageTry laterPlatform exampleBitmap ''a''
     = Some (Inr [\<lparr>so_id = ''obj-a-0-2000'', so_sourceId = ''a'', so_url = ''blob:0'',
                   so_width = 15, so_height = 14, so_x = 0, so_y = 0\<rparr>])"
    unfolding segmentImageTry_def r
    by (simp add: extractObjects_def extractObject_def laterPlatform_def examplePlatform_def
          enumerate_eq_zip showNat.simps digitChar_def Let_def)
  have d: "showNat (dateNow examplePlatform 0) = ''1000''" "showNat (dateNow laterPlatform 0) = ''2000''"
    by (simp_all add: laterPlatform_def examplePlatform_def showNat.simps digitChar_def)
  show ?thesis
    using rerun_same_regions[OF e1 e2] e1 e2 d by simp
qed

end
